theory Spec2Isabelle
  imports Main "HOL-Library.AList"
begin

section \<open>Byte strings and the Qt containers of Indexer.cpp\<close>

text \<open>
  A \<open>QByteArray\<close> and a \<open>std::string\<close> are sequences of bytes; both may hold a NUL
  byte. A \<open>const char *\<close> handed to a C interface denotes the bytes up to the first NUL:
  that is what \<open>QByteArray::constData()\<close> gives to \<open>leveldb::Slice(const char *)\<close> and to
  \<open>std::string::operator+=(const char *)\<close>, and what \<open>QByteArray(const char *)\<close> copies.
\<close>

type_synonym bytes = string

definition NUL :: char where
  "NUL = CHR 0x00"

definition LF :: char where
  "LF = CHR 0x0A"

definition constData :: "bytes \<Rightarrow> bytes" where
  "constData b = takeWhile (\<lambda>c. c \<noteq> NUL) b"

text \<open>\<open>QByteArray::split(sep)\<close>: the pieces between the separators, empty pieces kept.\<close>

fun split :: "char \<Rightarrow> bytes \<Rightarrow> bytes list" where
  "split sep [] = [[]]"
| "split sep (c # cs) =
     (if c = sep then [] # split sep cs
      else (c # hd (split sep cs)) # tl (split sep cs))"

subsection \<open>QSet<QByteArray>\<close>

text \<open>
  A \<open>QSet\<close> is modelled by the list of its elements in the order its iterator visits
  them. Qt leaves that order unspecified; the operations below fix one, and every theorem
  about stored data speaks about the set of elements only. \<open>size()\<close> counts the distinct
  elements.
\<close>

type_synonym qset = "bytes list"

definition qset_insert :: "bytes \<Rightarrow> qset \<Rightarrow> qset" where
  "qset_insert x s = (if x \<in> set s then s else s @ [x])"

definition qset_remove :: "bytes \<Rightarrow> qset \<Rightarrow> qset" where
  "qset_remove x s = removeAll x s"

definition qset_unite :: "qset \<Rightarrow> qset \<Rightarrow> qset" where
  "qset_unite s other = fold qset_insert other s"

definition qset_intersect :: "qset \<Rightarrow> qset \<Rightarrow> qset" where
  "qset_intersect s other = filter (\<lambda>x. x \<in> set other) s"

definition qset_size :: "qset \<Rightarrow> nat" where
  "qset_size s = length (remdups s)"

definition toSet :: "bytes list \<Rightarrow> qset" where
  "toSet xs = fold qset_insert xs []"

subsection \<open>HashSet = QHash<QByteArray, QSet<QByteArray> >\<close>

text \<open>
  The hash is the list of its entries in iteration order, one entry per key.
  \<open>hs_insert k v h\<close> is \<open>h[k].insert(v)\<close> and \<open>hs_unite k s h\<close> is \<open>h[k].unite(s)\<close>:
  \<open>operator[]\<close> creates the entry with an empty set when the key is new.
\<close>

type_synonym HashSet = "(bytes \<times> qset) list"

fun hs_unite :: "bytes \<Rightarrow> qset \<Rightarrow> HashSet \<Rightarrow> HashSet" where
  "hs_unite k s [] = [(k, qset_unite [] s)]"
| "hs_unite k s ((k', s') # h) =
     (if k = k' then (k', qset_unite s' s) # h else (k', s') # hs_unite k s h)"

definition hs_insert :: "bytes \<Rightarrow> bytes \<Rightarrow> HashSet \<Rightarrow> HashSet" where
  "hs_insert k v h = hs_unite k [v] h"

text \<open>The set found under a key; empty when the key has no entry.\<close>

definition hs_value :: "HashSet \<Rightarrow> bytes \<Rightarrow> bytes set" where
  "hs_value h k = (case map_of h k of None \<Rightarrow> {} | Some s \<Rightarrow> set s)"

section \<open>The key-value store and IndexerImpl::syncData\<close>

text \<open>
  A leveldb database maps byte-string keys to byte-string values. \<open>Get\<close> leaves its
  output string untouched when the key is absent and when the read fails, and \<open>syncData\<close>
  passes a fresh empty string (line 76); the status that \<open>Get\<close> returns is dropped by the
  code (line 77). The first argument of \<open>Get\<close> says whether the read succeeds. A write
  batch is the list of its \<open>Put\<close>s, applied in order by \<open>Write\<close>.
\<close>

type_synonym store = "bytes \<rightharpoonup> bytes"

type_synonym WriteBatch = "(bytes \<times> bytes) list"

definition Get :: "bool \<Rightarrow> store \<Rightarrow> bytes \<Rightarrow> bytes" where
  "Get ok db key = (if ok then (case db key of None \<Rightarrow> [] | Some v \<Rightarrow> v) else [])"

definition Write :: "WriteBatch \<Rightarrow> store \<Rightarrow> store" where
  "Write batch db = fold (\<lambda>(k, v) d. d(k \<mapsto> v)) batch db"

text \<open>
  Lines 79 to 81: the stored value split at LF, as a set, without the empty string.
\<close>

definition stored_set :: "bytes \<Rightarrow> qset" where
  "stored_set bvalue = qset_remove [] (toSet (split LF bvalue))"

text \<open>Lines 90 to 97: every element as a C string, each followed by LF.\<close>

definition serialise :: "qset \<Rightarrow> bytes" where
  "serialise newset = concat (map (\<lambda>e. constData e @ [LF]) newset)"

text \<open>
  The loop of lines 73 to 101 over the entries of \<open>data\<close>. All reads go to the database
  as it is before the batch is written; \<open>rd\<close> says for which keys the read succeeds.
\<close>

fun sync_loop :: "(bytes \<Rightarrow> bool) \<Rightarrow> store \<Rightarrow> HashSet \<Rightarrow> WriteBatch \<Rightarrow> WriteBatch" where
  "sync_loop rd db [] batch = batch"
| "sync_loop rd db ((key, set') # rest) batch =
     (let newset = stored_set (Get (rd (constData key)) db (constData key));
          inter = qset_intersect newset set'
      in if qset_size inter = qset_size set' then sync_loop rd db rest batch
         else sync_loop rd db rest
                (batch @ [(constData key, serialise (qset_unite newset set'))]))"

subsection \<open>What syncData and its callers act on\<close>

datatype Database_Type = Include | Definition | Reference | Symbol

datatype Mode = Normal | Force

record IndexerJob =
  m_mode :: Mode
  m_id :: int
  m_path :: bytes
  m_in :: bytes
  m_args :: "bytes list"
  m_defs :: HashSet
  m_refs :: HashSet
  m_syms :: HashSet

text \<open>
  The members of \<open>IndexerImpl\<close>; the five mutexes have no sequential content.
  \<open>jobs\<close> is a \<open>QHash<int, IndexerJob*>\<close>, kept as its list of entries.
\<close>

record IndexerImpl =
  jobCounter :: int
  indexing :: qset
  path :: bytes
  lastJobId :: int
  jobs :: "(int \<times> IndexerJob) list"
  incs :: HashSet
  defs :: HashSet
  refs :: HashSet
  syms :: HashSet

datatype log_msg =
    Syncing
  | Synced
  | TryingToReindex bytes
  | ResourceDoesNotExist
  | NoResourceData
  | Reindexing bytes "bytes list"
  | Parsing bytes bytes
  | ClangWarning bytes
  | Reread bytes
  | GotNoUnit bytes

datatype signal = Done int bytes | IndexingDone int

text \<open>
  Everything outside \<open>IndexerImpl\<close> that the code acts on: the leveldb databases on disk
  by name (a missing one is created empty by \<open>create_if_missing\<close>), the messages given
  to \<open>qDebug\<close> and \<open>qWarning\<close>, the jobs handed to the global thread pool and the Qt
  signals emitted.
\<close>

record world =
  disk :: "bytes \<Rightarrow> store"
  qdebug :: "log_msg list"
  pool :: "IndexerJob list"
  emitted :: "signal list"

text \<open>
  What the code reads from collaborators that are not part of Indexer.cpp:
  \<open>Database::databaseName\<close>, whether \<open>leveldb::DB::Open\<close>, \<open>DB::Write\<close> and the
  \<open>DB::Get\<close> of a key return an ok status, the \<open>Resource::Information\<close> record of a
  file (\<open>None\<close> when \<open>Resource::exists\<close> is false) and \<open>Path::resolved\<close>. A \<open>Write\<close>
  that fails applies nothing of its batch. The three outcomes can differ from one call of
  \<open>syncData\<close> to the next.
\<close>

record environment =
  databaseName :: "Database_Type \<Rightarrow> bytes"
  open_ok :: "Database_Type \<Rightarrow> bool"
  write_ok :: "Database_Type \<Rightarrow> bool"
  read_ok :: "Database_Type \<Rightarrow> bytes \<Rightarrow> bool"
  information :: "bytes \<Rightarrow> bytes list option"
  resolved :: "bytes \<Rightarrow> bytes"

text \<open>
  \<open>IndexerImpl::syncData\<close>, lines 50 to 106. The status of \<open>db->Get\<close> and of
  \<open>db->Write\<close> is dropped by the code; nothing in the function writes to \<open>qDebug\<close>.
\<close>

definition syncData ::
  "environment \<Rightarrow> Database_Type \<Rightarrow> HashSet \<Rightarrow> world \<Rightarrow> HashSet \<times> world" where
  "syncData env type data w =
     (let name = databaseName env type
      in if name = [] then (data, w)
         else if \<not> open_ok env type then (data, w)
         else
           (let db = disk w name;
                batch = sync_loop (read_ok env type) db data []
            in ([], if write_ok env type
                    then w\<lparr>disk := (disk w)(name := Write batch db)\<rparr>
                    else w)))"

section \<open>The coordinator: Indexer::index, Indexer::reindex, Indexer::jobDone\<close>

definition SYNCINTERVAL :: int where
  "SYNCINTERVAL = 10"

text \<open>
  \<open>jobCounter\<close> and \<open>lastJobId\<close> are C++ \<open>int\<close>s. Incrementing an \<open>int\<close> that holds
  \<open>INT_MAX\<close> is undefined; the model gives no result (\<open>None\<close>) there.
\<close>

definition INT_MAX :: int where
  "INT_MAX = 2147483647"

text \<open>
  Lines 400 to 403: \<open>do { id = lastJobId++; } while (jobs.contains(id));\<close> The result
  is the id and the new \<open>lastJobId\<close>.
\<close>

function next_id :: "(int \<times> IndexerJob) list \<Rightarrow> int \<Rightarrow> (int \<times> int) option" where
  "next_id js lastId =
     (if INT_MAX \<le> lastId then None
      else if lastId \<in> set (map fst js) then next_id js (lastId + 1)
      else Some (lastId, lastId + 1))"
  by pat_completeness auto
termination
  by (relation "measure (\<lambda>(js, lastId). nat (INT_MAX - lastId))") auto

declare next_id.simps [simp del]

definition new_job :: "Mode \<Rightarrow> int \<Rightarrow> bytes \<Rightarrow> bytes \<Rightarrow> bytes list \<Rightarrow> IndexerJob" where
  "new_job mode ident p input arguments =
     \<lparr>m_mode = mode, m_id = ident, m_path = p, m_in = input, m_args = arguments,
      m_defs = [], m_refs = [], m_syms = []\<rparr>"

definition index ::
  "bytes \<Rightarrow> bytes list \<Rightarrow> Mode \<Rightarrow> IndexerImpl \<Rightarrow> world \<Rightarrow> (int \<times> IndexerImpl \<times> world) option" where
  "index input arguments mode impl w =
     (if input \<in> set (indexing impl) then Some (- 1, impl, w)
      else
        (case next_id (jobs impl) (lastJobId impl) of
           None \<Rightarrow> None
         | Some (ident, lastId) \<Rightarrow>
             (let job = new_job mode ident (path impl) input arguments
              in Some (ident,
                       impl\<lparr>lastJobId := lastId,
                            indexing := qset_insert input (indexing impl),
                            jobs := AList.update ident job (jobs impl)\<rparr>,
                       w\<lparr>pool := pool w @ [job]\<rparr>))))"

definition qDebug :: "log_msg \<Rightarrow> world \<Rightarrow> world" where
  "qDebug msg w = w\<lparr>qdebug := qdebug w @ [msg]\<rparr>"

definition emit :: "signal \<Rightarrow> world \<Rightarrow> world" where
  "emit sig w = w\<lparr>emitted := emitted w @ [sig]\<rparr>"

definition reindex ::
  "environment \<Rightarrow> bytes \<Rightarrow> Mode \<Rightarrow> IndexerImpl \<Rightarrow> world \<Rightarrow> (int \<times> IndexerImpl \<times> world) option" where
  "reindex env filename mode impl w =
     (let w1 = qDebug (TryingToReindex filename) w
      in case information env filename of
           None \<Rightarrow> Some (- 1, impl, qDebug ResourceDoesNotExist w1)
         | Some data \<Rightarrow>
             (case data of
                [] \<Rightarrow> Some (- 1, impl, qDebug NoResourceData w1)
              | input # arguments \<Rightarrow>
                  if input = [] then Some (- 1, impl, qDebug NoResourceData w1)
                  else index input arguments mode impl
                         (qDebug (Reindexing input arguments) w1)))"

text \<open>The four calls of lines 449 to 452, in their order.\<close>

definition sync_all :: "environment \<Rightarrow> IndexerImpl \<Rightarrow> world \<Rightarrow> IndexerImpl \<times> world" where
  "sync_all env impl w =
     (let (i', w1) = syncData env Include (incs impl) w;
          (d', w2) = syncData env Definition (defs impl) w1;
          (r', w3) = syncData env Reference (refs impl) w2;
          (s', w4) = syncData env Symbol (syms impl) w3
      in (impl\<lparr>incs := i', defs := d', refs := r', syms := s'\<rparr>, w4))"

definition jobDone ::
  "environment \<Rightarrow> int \<Rightarrow> bytes \<Rightarrow> IndexerImpl \<Rightarrow> world \<Rightarrow> (IndexerImpl \<times> world) option" where
  "jobDone env ident filename impl w =
     (if INT_MAX \<le> jobCounter impl then None
      else
        (let impl1 = impl\<lparr>jobs := AList.delete ident (jobs impl),
                          indexing := qset_remove filename (indexing impl),
                          jobCounter := jobCounter impl + 1\<rparr>
         in if jobs impl1 = [] \<or> jobCounter impl1 = SYNCINTERVAL
            then
              (let (impl2, w2) = sync_all env impl1 (qDebug Syncing w);
                   w3 = qDebug Synced w2
               in Some (impl2\<lparr>jobCounter := 0\<rparr>, emit (IndexingDone ident) w3))
            else Some (impl1, emit (IndexingDone ident) w)))"

section \<open>The extraction worker: IndexerJob\<close>

subsection \<open>Inclusions, lines 136 to 170\<close>

text \<open>
  \<open>inc\<close> is the file name libclang reports for a \<open>CXFile\<close>; \<open>clang_getCString\<close> reads it
  as a C string. \<open>qstrcmp\<close> on two \<open>QByteArray\<close>s is 0 exactly when they hold the same
  bytes. The insertion goes to the shared \<open>incs\<close> of \<open>IndexerImpl\<close>, under \<open>incMutex\<close>.
\<close>

definition addInclusion :: "environment \<Rightarrow> IndexerJob \<Rightarrow> bytes \<Rightarrow> HashSet \<Rightarrow> HashSet" where
  "addInclusion env job inc h =
     (let p = resolved env (constData inc)
      in if m_in job = p then h else hs_insert p (m_in job) h)"

text \<open>
  \<open>inclusion_stack\<close> holds, for each location of the stack, the file name that
  \<open>clang_getSpellingLocation\<close> returns for it.
\<close>

definition inclusionVisitor ::
  "environment \<Rightarrow> IndexerJob \<Rightarrow> bytes \<Rightarrow> bytes list \<Rightarrow> HashSet \<Rightarrow> HashSet" where
  "inclusionVisitor env job included_file inclusion_stack h =
     fold (addInclusion env job) inclusion_stack (addInclusion env job included_file h)"

subsection \<open>The AST visitor, lines 172 to 271\<close>

text \<open>
  What the visitor asks libclang about a cursor. \<open>display_names\<close> lists the display
  name of the cursor and of its semantic parents in turn, ending before the translation
  unit or the null cursor; \<open>None\<close> is a null C string. \<open>line\<close> and \<open>column\<close> are
  \<open>unsigned int\<close>s.
\<close>

record CXCursor =
  is_access_specifier :: bool
  usr :: bytes
  referenced_usr :: bytes
  file_name :: "bytes option"
  line :: nat
  column :: nat
  is_definition :: bool
  display_names :: "bytes option list"

text \<open>\<open>QByteArray::number\<close>: the decimal digits of an unsigned number.\<close>

definition digit :: "nat \<Rightarrow> char" where
  "digit d = char_of (48 + d)"

function number :: "nat \<Rightarrow> bytes" where
  "number n = (if n < 10 then [digit n] else number (n div 10) @ [digit (n mod 10)])"
  by pat_completeness auto
termination
  by (relation "measure id") auto

declare number.simps [simp del]

text \<open>The loop of lines 180 to 210 over the cursor and its semantic parents.\<close>

fun name_loop :: "bytes \<Rightarrow> bytes option list \<Rightarrow> bytes \<Rightarrow> bytes \<Rightarrow> HashSet \<Rightarrow> HashSet" where
  "name_loop qusr [] qparam qnoparam h = h"
| "name_loop qusr (None # parents) qparam qnoparam h = h"
| "name_loop qusr (Some displayName # parents) qparam qnoparam h =
     (let qname = constData displayName
      in if qname = [] then h
         else
           (let qparam1 = (if qparam = [] then qname @ qparam else (qname @ ''::'') @ qparam);
                qnoparam1 =
                  (if qparam = []
                   then (let q = qname @ qnoparam
                         in if CHR ''('' \<in> set q then takeWhile (\<lambda>c. c \<noteq> CHR ''('') q else q)
                   else (qname @ ''::'') @ qnoparam);
                h1 = hs_insert qparam1 qusr h;
                h2 = (if qparam1 \<noteq> qnoparam1 then hs_insert qnoparam1 qusr h1 else h1)
            in name_loop qusr parents qparam1 qnoparam1 h2))"

definition addNamePermutations :: "CXCursor \<Rightarrow> bytes \<Rightarrow> IndexerJob \<Rightarrow> IndexerJob" where
  "addNamePermutations cursor cusr job =
     job\<lparr>m_syms := name_loop cusr (display_names cursor) [] [] (m_syms job)\<rparr>"

text \<open>The test of lines 230 and 236: an empty USR or the USR \<open>c:\<close>.\<close>

definition no_usr :: "bytes \<Rightarrow> bool" where
  "no_usr cusr = (cusr = [] \<or> cusr = ''c:'')"

text \<open>
  The visitor returns \<open>CXChildVisit_Recurse\<close> on every path, so it is called on every
  cursor below the translation unit; the result here is the job with its maps updated.
\<close>

definition indexVisitor :: "environment \<Rightarrow> CXCursor \<Rightarrow> IndexerJob \<Rightarrow> IndexerJob" where
  "indexVisitor env cursor job =
     (if is_access_specifier cursor then job
      else if no_usr (constData (usr cursor)) \<and> no_usr (constData (referenced_usr cursor))
      then job
      else
        (let cusr = (if no_usr (constData (usr cursor))
                     then constData (referenced_usr cursor)
                     else constData (usr cursor))
         in case file_name cursor of
              None \<Rightarrow> job
            | Some f \<Rightarrow>
                if constData f = [] then job
                else
                  (let qloc = resolved env (constData f) @ '':'' @ number (line cursor)
                                @ '':'' @ number (column cursor);
                       job1 = (if is_definition cursor
                               then addNamePermutations cursor cusr
                                      (job\<lparr>m_defs := hs_insert cusr qloc (m_defs job)\<rparr>)
                               else job)
                   in job1\<lparr>m_refs := hs_insert cusr qloc (m_refs job1)\<rparr>)))"

subsection \<open>The filename symbol, lines 279 to 302\<close>

text \<open>
  \<open>QByteArray::lastIndexOf(ch, from)\<close> as Qt implements it: a negative \<open>from\<close> counts
  from the end (\<open>-1\<close> is the last byte), the search runs backwards from \<open>from\<close>, and the
  result is \<open>-1\<close> when nothing is found. The byte at index \<open>size()\<close> is the terminating NUL.
\<close>

definition byte_at :: "bytes \<Rightarrow> nat \<Rightarrow> char" where
  "byte_at b i = (if i < length b then b ! i else NUL)"

fun search_back :: "bytes \<Rightarrow> char \<Rightarrow> nat \<Rightarrow> int" where
  "search_back b ch 0 = (if byte_at b 0 = ch then 0 else - 1)"
| "search_back b ch (Suc n) =
     (if byte_at b (Suc n) = ch then int (Suc n) else search_back b ch n)"

definition lastIndexOf :: "bytes \<Rightarrow> char \<Rightarrow> int \<Rightarrow> int" where
  "lastIndexOf b ch from =
     (let from1 = (if from < 0 then from + int (length b)
                   else if from > int (length b) then int (length b) - 1
                   else from)
      in if 0 \<le> from1 then search_back b ch (nat from1) else - 1)"

text \<open>
  The inner loop of lines 286 to 289; the result is \<open>idx\<close> and \<open>backslashes\<close> after it.
\<close>

function skip_backslashes :: "bytes \<Rightarrow> int \<Rightarrow> int \<Rightarrow> int \<times> int" where
  "skip_backslashes filename idx backslashes =
     (if 0 < idx \<and> byte_at filename (nat (idx - 1)) = CHR 0x5C
      then skip_backslashes filename (idx - 1) (backslashes + 1)
      else (idx, backslashes))"
  by pat_completeness auto
termination
  by (relation "measure (\<lambda>(filename, idx, backslashes). nat idx)") auto

declare skip_backslashes.simps [simp del]

text \<open>
  The \<open>for (;;)\<close> of lines 283 to 298, entered with the current \<open>idx\<close>; the result is the
  \<open>idx\<close> it leaves with, and \<open>None\<close> when it never leaves.
\<close>

partial_function (option) basename_loop :: "bytes \<Rightarrow> int \<Rightarrow> int option" where
  "basename_loop filename idx =
     (let found = skip_backslashes filename (lastIndexOf filename CHR ''/'' idx) 0;
          idx1 = fst found;
          backslashes = snd found
      in if backslashes mod 2 \<noteq> 0 \<or> idx1 = 0
         then (if idx1 - 1 = 0 then Some (idx1 - 1) else basename_loop filename (idx1 - 1))
         else Some (idx1 + backslashes))"

declare basename_loop.simps [code]

text \<open>\<open>QByteArray::mid(pos)\<close>: the bytes from \<open>pos\<close> to the end.\<close>

definition mid :: "bytes \<Rightarrow> int \<Rightarrow> bytes" where
  "mid b pos = drop (nat pos) b"

definition addFilenameSymbol :: "bytes \<Rightarrow> IndexerJob \<Rightarrow> IndexerJob option" where
  "addFilenameSymbol filename job =
     (case basename_loop filename (- 1) of
        None \<Rightarrow> None
      | Some idx \<Rightarrow>
          if idx = - 1 then Some job
          else Some (job\<lparr>m_syms := hs_insert (mid filename (idx + 1)) filename (m_syms job)\<rparr>))"

subsection \<open>uniteSets and IndexerJob::run, lines 304 to 361\<close>

definition uniteSets :: "HashSet \<Rightarrow> HashSet \<Rightarrow> HashSet \<times> HashSet" where
  "uniteSets dst src = (fold (\<lambda>(k, s) d. hs_unite k s d) src dst, [])"

text \<open>
  What \<open>CachedUnit\<close> and libclang hand to \<open>run\<close> for a translation unit: its file name,
  whether it was parsed from source or reloaded from a saved AST, the diagnostics with
  their severity (\<open>CXDiagnostic_Warning\<close> is 2) and formatted text, the inclusions with
  their stacks, and the cursors in the order \<open>clang_visitChildren\<close> reaches them.
\<close>

datatype Origin = Source | AST

record UnitData =
  unit_filename :: bytes
  unit_origin :: Origin
  unit_diagnostics :: "(nat \<times> bytes) list"
  unit_inclusions :: "(bytes \<times> bytes list) list"
  unit_cursors :: "CXCursor list"

text \<open>
  \<open>IndexerJob::run\<close> runs on a thread of the pool. What it shares with the coordinator
  and with the other jobs are the four maps of \<open>IndexerImpl\<close>, each under its own mutex.
  Every \<open>addInclusion\<close> takes \<open>incMutex\<close> for its insertion; the AST walk and
  \<open>addFilenameSymbol\<close> act on the job's own maps; lines 346 to 354 take \<open>defMutex\<close>,
  \<open>refMutex\<close> and \<open>symMutex\<close> one after the other, each released before the next is
  taken. So the three folds are three steps, and another thread can act between them.
\<close>

definition run_inclusions ::
  "environment \<Rightarrow> IndexerJob \<Rightarrow> (bytes \<times> bytes list) list \<Rightarrow> IndexerImpl \<Rightarrow> IndexerImpl" where
  "run_inclusions env job inclusions impl =
     impl\<lparr>incs := fold (\<lambda>(included_file, stack) h.
                           inclusionVisitor env job included_file stack h)
                     inclusions (incs impl)\<rparr>"

text \<open>Lines 346 to 348, 349 to 351 and 352 to 354.\<close>

definition fold_defs :: "IndexerJob \<Rightarrow> IndexerImpl \<Rightarrow> IndexerJob \<times> IndexerImpl" where
  "fold_defs job impl =
     (let (defs1, mdefs) = uniteSets (defs impl) (m_defs job)
      in (job\<lparr>m_defs := mdefs\<rparr>, impl\<lparr>defs := defs1\<rparr>))"

definition fold_refs :: "IndexerJob \<Rightarrow> IndexerImpl \<Rightarrow> IndexerJob \<times> IndexerImpl" where
  "fold_refs job impl =
     (let (refs1, mrefs) = uniteSets (refs impl) (m_refs job)
      in (job\<lparr>m_refs := mrefs\<rparr>, impl\<lparr>refs := refs1\<rparr>))"

definition fold_syms :: "IndexerJob \<Rightarrow> IndexerImpl \<Rightarrow> IndexerJob \<times> IndexerImpl" where
  "fold_syms job impl =
     (let (syms1, msyms) = uniteSets (syms impl) (m_syms job)
      in (job\<lparr>m_syms := msyms\<rparr>, impl\<lparr>syms := syms1\<rparr>))"

text \<open>
  \<open>IndexerJob::run\<close> when no other thread acts between its steps; \<open>unit\<close> is \<open>None\<close> when
  the cache gives no unit. The result is \<open>None\<close> when \<open>addFilenameSymbol\<close> does not
  return. What holds when other threads do act in between is stated for the steps, in
  the section on the threads together.
\<close>

definition run ::
  "environment \<Rightarrow> UnitData option \<Rightarrow> IndexerJob \<Rightarrow> IndexerImpl \<Rightarrow> world
     \<Rightarrow> (IndexerJob \<times> IndexerImpl \<times> world) option" where
  "run env unit job impl w =
     (case unit of
        None \<Rightarrow>
          Some (job, impl, emit (Done (m_id job) (m_in job)) (qDebug (GotNoUnit (m_in job)) w))
      | Some u \<Rightarrow>
          (let w1 = qDebug (Parsing (m_in job) (unit_filename u)) w;
               w2 = fold (\<lambda>(severity, msg) v.
                            if 2 \<le> severity then qDebug (ClangWarning msg) v else v)
                      (unit_diagnostics u) w1
           in if unit_origin u = Source
              then
                (let w3 = qDebug (Reread (unit_filename u)) w2;
                     impl1 = run_inclusions env job (unit_inclusions u) impl;
                     job1 = fold (indexVisitor env) (unit_cursors u) job
                 in case addFilenameSymbol (unit_filename u) job1 of
                      None \<Rightarrow> None
                    | Some job2 \<Rightarrow>
                        (let (job3, impl2) = fold_defs job2 impl1;
                             (job4, impl3) = fold_refs job3 impl2;
                             (job5, impl4) = fold_syms job4 impl3
                         in Some (job5, impl4, emit (Done (m_id job) (m_in job)) w3)))
              else Some (job, impl, emit (Done (m_id job) (m_in job)) w2)))"

section \<open>The threads together\<close>

text \<open>
  One of the calls of lines 449 to 452: \<open>syncData\<close> on the staging map of a category.
  Each call holds the mutex of its category from the loop to the commit, so it is one
  step for the other threads; between two of the four calls a job can fold its maps.
\<close>

definition staged :: "Database_Type \<Rightarrow> IndexerImpl \<Rightarrow> HashSet" where
  "staged type impl =
     (case type of Include \<Rightarrow> incs impl | Definition \<Rightarrow> defs impl
                 | Reference \<Rightarrow> refs impl | Symbol \<Rightarrow> syms impl)"

definition set_staged :: "Database_Type \<Rightarrow> HashSet \<Rightarrow> IndexerImpl \<Rightarrow> IndexerImpl" where
  "set_staged type data impl =
     (case type of Include \<Rightarrow> impl\<lparr>incs := data\<rparr> | Definition \<Rightarrow> impl\<lparr>defs := data\<rparr>
                 | Reference \<Rightarrow> impl\<lparr>refs := data\<rparr> | Symbol \<Rightarrow> impl\<lparr>syms := data\<rparr>)"

definition sync_one ::
  "environment \<Rightarrow> Database_Type \<Rightarrow> IndexerImpl \<Rightarrow> world \<Rightarrow> IndexerImpl \<times> world" where
  "sync_one env type impl w =
     (let (data, w') = syncData env type (staged type impl) w
      in (set_staged type data impl, w'))"

text \<open>
  A sync in which the Reference database loses something: it has a name and opens, and
  its commit fails or the read of a staged key fails.
\<close>

definition reference_failure :: "environment \<Rightarrow> Database_Type \<Rightarrow> IndexerImpl \<Rightarrow> bool" where
  "reference_failure env type impl =
     (type = Reference \<and> databaseName env Reference \<noteq> [] \<and> open_ok env Reference
      \<and> (\<not> write_ok env Reference
          \<or> (\<exists>key\<in>fst ` set (refs impl). \<not> read_ok env Reference (constData key))))"

text \<open>
  A state of the whole: the members of \<open>IndexerImpl\<close>, the world, and the \<open>IndexerJob\<close>
  objects that exist, each with its own three maps. \<open>step\<close> lists what one thread does
  to it while no other thread acts: \<open>index\<close> creates a job object (line 407); a job adds
  an inclusion, visits a cursor, adds its filename symbol, folds one of its maps; a job
  whose maps are empty, as they are when \<open>run\<close> has returned, is deleted; the coordinator
  syncs one category, with any outcome of the open, the reads and the commit in which
  the Reference database loses nothing; and the members and parts of the world other
  than the staging maps and the databases change (the counters, \<open>jobs\<close>, \<open>indexing\<close>, the
  log, the pool and the signals). The database names and \<open>Path::resolved\<close> are those of
  \<open>env\<close> throughout.
\<close>

type_synonym system = "IndexerImpl \<times> world \<times> IndexerJob list"

inductive step :: "environment \<Rightarrow> system \<Rightarrow> system \<Rightarrow> bool" for env where
  created:
    "step env (impl, w, js) (impl, w, js @ [new_job mode ident p input arguments])"
| included:
    "step env (impl, w, pre @ job # post)
       (impl\<lparr>incs := addInclusion env job inc (incs impl)\<rparr>, w, pre @ job # post)"
| visited:
    "step env (impl, w, pre @ job # post) (impl, w, pre @ indexVisitor env cursor job # post)"
| named:
    "addFilenameSymbol filename job = Some job' \<Longrightarrow>
     step env (impl, w, pre @ job # post) (impl, w, pre @ job' # post)"
| defs_folded:
    "step env (impl, w, pre @ job # post)
       (snd (fold_defs job impl), w, pre @ fst (fold_defs job impl) # post)"
| refs_folded:
    "step env (impl, w, pre @ job # post)
       (snd (fold_refs job impl), w, pre @ fst (fold_refs job impl) # post)"
| syms_folded:
    "step env (impl, w, pre @ job # post)
       (snd (fold_syms job impl), w, pre @ fst (fold_syms job impl) # post)"
| deleted:
    "m_defs job = [] \<Longrightarrow> m_refs job = [] \<Longrightarrow> m_syms job = [] \<Longrightarrow>
     step env (impl, w, pre @ job # post) (impl, w, pre @ post)"
| synced:
    "databaseName env' = databaseName env \<Longrightarrow> \<not> reference_failure env' type impl \<Longrightarrow>
     step env (impl, w, js) (fst (sync_one env' type impl w), snd (sync_one env' type impl w), js)"
| coordinated:
    "step env (impl, w, js)
       (impl\<lparr>jobCounter := c, indexing := i, lastJobId := l, jobs := j\<rparr>,
        w\<lparr>qdebug := q, pool := p', emitted := e\<rparr>, js)"

section \<open>Stores that syncData has written\<close>

text \<open>
  A database is created empty and is written by nothing but the batches of \<open>syncData\<close>,
  whichever of its reads succeed.
\<close>

inductive written_by_sync :: "store \<Rightarrow> bool" where
  empty: "written_by_sync Map.empty"
| batch: "written_by_sync db \<Longrightarrow> written_by_sync (Write (sync_loop rd db data []) db)"

section \<open>Notions the properties are stated with\<close>

text \<open>
  The set stored under a database key: what the parse of lines 79 to 81 makes of the
  value when the read succeeds. \<open>read_at\<close> is the set the loop of \<open>syncData\<close> works
  with: the stored set when its read succeeds, the empty set when it fails.
\<close>

definition stored_at :: "store \<Rightarrow> bytes \<Rightarrow> bytes set" where
  "stored_at db key = set (stored_set (Get True db key))"

definition read_at :: "(bytes \<Rightarrow> bool) \<Rightarrow> store \<Rightarrow> bytes \<Rightarrow> bytes set" where
  "read_at rd db key = set (stored_set (Get (rd key) db key))"

text \<open>
  Whether the loop body adds a \<open>Put\<close> for an entry of the staging map, and the \<open>Put\<close> it
  adds.
\<close>

definition needs_put :: "(bytes \<Rightarrow> bool) \<Rightarrow> store \<Rightarrow> bytes \<times> qset \<Rightarrow> bool" where
  "needs_put rd db e = (\<not> set (snd e) \<subseteq> read_at rd db (constData (fst e)))"

definition put_of :: "(bytes \<Rightarrow> bool) \<Rightarrow> store \<Rightarrow> bytes \<times> qset \<Rightarrow> bytes \<times> bytes" where
  "put_of rd db e =
     (constData (fst e),
      serialise (qset_unite (stored_set (Get (rd (constData (fst e))) db (constData (fst e))))
                   (snd e)))"

text \<open>No stored value holds a NUL byte.\<close>

definition NUL_free :: "store \<Rightarrow> bool" where
  "NUL_free db = (\<forall>k v. db k = Some v \<longrightarrow> NUL \<notin> set v)"

text \<open>A byte string that is stored and read back as itself: not empty, no LF, no NUL.\<close>

definition plain :: "bytes \<Rightarrow> bool" where
  "plain e = (e \<noteq> [] \<and> LF \<notin> set e \<and> NUL \<notin> set e)"

text \<open>What is read back after a set of byte strings has been serialised and stored.\<close>

definition lines_of :: "bytes set \<Rightarrow> bytes set" where
  "lines_of S = (\<Union>e\<in>S. set (split LF (constData e))) - {[]}"

text \<open>
  The keys of a staging map that was filled from C strings: no key holds a NUL byte.
  A \<open>QHash\<close> has one entry per key.
\<close>

definition c_string_keys :: "HashSet \<Rightarrow> bool" where
  "c_string_keys h = (distinct (map fst h) \<and> (\<forall>k\<in>set (map fst h). NUL \<notin> set k))"

text \<open>No key of a staging map holds a NUL byte.\<close>

definition NUL_free_keys :: "HashSet \<Rightarrow> bool" where
  "NUL_free_keys h = (\<forall>k\<in>fst ` set h. NUL \<notin> set k)"

text \<open>No key of a staging map is an element of its own set.\<close>

definition no_self :: "HashSet \<Rightarrow> bool" where
  "no_self h = (\<forall>(k, s)\<in>set h. k \<notin> set s)"

text \<open>No database key is an element of the set stored under it.\<close>

definition no_self_stored :: "store \<Rightarrow> bool" where
  "no_self_stored db = (\<forall>k. k \<notin> stored_at db k)"

text \<open>No staged value holds an LF or a NUL byte.\<close>

definition line_values :: "HashSet \<Rightarrow> bool" where
  "line_values h = (\<forall>(k, s)\<in>set h. \<forall>e\<in>set s. LF \<notin> set e \<and> NUL \<notin> set e)"



definition held :: "(IndexerJob \<Rightarrow> HashSet) \<Rightarrow> IndexerJob list \<Rightarrow> bytes \<Rightarrow> bytes set" where
  "held m js u = (\<Union>job\<in>set js. hs_value (m job) u)"


text \<open>
  The number of backslashes directly before an index of a filename; a slash is unescaped
  when that number is even.
\<close>

definition backslashes_before :: "bytes \<Rightarrow> nat \<Rightarrow> nat" where
  "backslashes_before f i = length (takeWhile (\<lambda>c. c = CHR 0x5C) (rev (take i f)))"

definition unescaped_slash :: "bytes \<Rightarrow> nat \<Rightarrow> bool" where
  "unescaped_slash f i = (i < length f \<and> f ! i = CHR ''/'' \<and> even (backslashes_before f i))"

text \<open>
  The states in which the loop of \<open>addFilenameSymbol\<close> is entered (at the start with
  \<open>-1\<close>, later with no unescaped slash above \<open>idx\<close>), and what its result is to be: the
  last unescaped slash when there is one.
\<close>

definition loop_entry :: "bytes \<Rightarrow> int \<Rightarrow> bool" where
  "loop_entry f idx =
     ((idx = - 1 \<or> (1 \<le> idx \<and> idx < int (length f)))
      \<and> (1 \<le> idx \<longrightarrow> (\<forall>j. idx < int j \<longrightarrow> \<not> unescaped_slash f j)))"

definition loop_result :: "bytes \<Rightarrow> int \<Rightarrow> bool" where
  "loop_result f r =
     (if \<exists>i. unescaped_slash f i
      then 0 \<le> r \<and> unescaped_slash f (nat r) \<and> (\<forall>j>nat r. \<not> unescaped_slash f j)
      else r = - 1 \<or> r = 0)"

text \<open>The keys of the job's definition and reference maps come from C strings.\<close>

definition usr_keyed :: "IndexerJob \<Rightarrow> bool" where
  "usr_keyed job = (c_string_keys (m_defs job) \<and> c_string_keys (m_refs job))"


subsection \<open>A concrete setting\<close>

text \<open>
  The four database names of the specification, every open, read and write succeeding,
  no reindex records, paths that are already resolved; and a world with nothing on disk.
\<close>

definition example_env :: environment where
  "example_env =
     \<lparr>databaseName = (\<lambda>t. case t of Include \<Rightarrow> ''Include'' | Definition \<Rightarrow> ''Definition''
                              | Reference \<Rightarrow> ''Reference'' | Symbol \<Rightarrow> ''Symbol''),
      open_ok = (\<lambda>t. True),
      write_ok = (\<lambda>t. True),
      read_ok = (\<lambda>t k. True),
      information = (\<lambda>f. None),
      resolved = (\<lambda>p. p)\<rparr>"

definition fresh_world :: world where
  "fresh_world = \<lparr>disk = (\<lambda>name. Map.empty), qdebug = [], pool = [], emitted = []\<rparr>"

definition fresh_impl :: IndexerImpl where
  "fresh_impl =
     \<lparr>jobCounter = 0, indexing = [], path = ''/db'', lastJobId = 0, jobs = [],
      incs = [], defs = [], refs = [], syms = []\<rparr>"












section \<open>Properties of the containers\<close>

lemma set_qset_insert [simp]: "set (qset_insert x s) = insert x (set s)"
  by (auto simp: qset_insert_def)

lemma set_fold_qset_insert: "set (fold qset_insert xs s) = set s \<union> set xs"
  by (induction xs arbitrary: s) auto

lemma set_qset_unite [simp]: "set (qset_unite s other) = set s \<union> set other"
  by (simp add: qset_unite_def set_fold_qset_insert)

lemma set_toSet [simp]: "set (toSet xs) = set xs"
  by (simp add: toSet_def set_fold_qset_insert)

lemma set_qset_remove [simp]: "set (qset_remove x s) = set s - {x}"
  by (simp add: qset_remove_def)

lemma set_stored_set: "set (stored_set v) = set (split LF v) - {[]}"
  by (simp add: stored_set_def)

text \<open>The test of line 84 holds exactly when the staged set is within the stored one.\<close>

lemma skip_test:
  "(qset_size (qset_intersect newset s) = qset_size s) = (set s \<subseteq> set newset)"
proof -
  have a: "qset_size (qset_intersect newset s) = card (set newset \<inter> set s)"
    by (simp add: qset_size_def qset_intersect_def length_remdups_card_conv)
       (metis Int_def Collect_cong)
  have b: "qset_size s = card (set s)"
    by (simp add: qset_size_def length_remdups_card_conv)
  have "(card (set newset \<inter> set s) = card (set s)) = (set s \<subseteq> set newset)"
  proof
    assume "card (set newset \<inter> set s) = card (set s)"
    then have "set newset \<inter> set s = set s"
      by (intro card_subset_eq) auto
    then show "set s \<subseteq> set newset" by blast
  next
    assume "set s \<subseteq> set newset"
    then have "set newset \<inter> set s = set s" by blast
    then show "card (set newset \<inter> set s) = card (set s)" by simp
  qed
  with a b show ?thesis by simp
qed

subsection \<open>split, constData and serialise\<close>

lemma split_not_Nil [simp]: "split sep s \<noteq> []"
  by (induction s) auto

lemma split_append_sep: "split sep (a @ sep # b) = split sep a @ split sep b"
  by (induction a) auto

lemma split_no_sep: "sep \<notin> set a \<Longrightarrow> split sep a = [a]"
  by (induction a) auto

lemma split_pieces: "p \<in> set (split sep s) \<Longrightarrow> sep \<notin> set p \<and> set p \<subseteq> set s"
proof (induction s arbitrary: p)
  case Nil
  then show ?case by simp
next
  case (Cons c s)
  show ?case
  proof (cases "c = sep")
    case True
    with Cons show ?thesis by auto
  next
    case False
    obtain h t where ht: "split sep s = h # t" by (cases "split sep s") auto
    with Cons.prems False have "p = c # h \<or> p \<in> set t" by simp
    moreover have "sep \<notin> set h \<and> set h \<subseteq> set s" using Cons.IH[of h] ht by simp
    moreover have "q \<in> set t \<Longrightarrow> sep \<notin> set q \<and> set q \<subseteq> set s" for q
      using Cons.IH[of q] ht by simp
    ultimately show ?thesis using False by auto
  qed
qed

lemma LF_not_NUL [simp]: "LF \<noteq> NUL" "NUL \<noteq> LF"
  by (simp_all add: LF_def NUL_def)

lemma NUL_constData [simp]: "NUL \<notin> set (constData b)"
  by (auto simp: constData_def dest: set_takeWhileD)

lemma constData_id: "NUL \<notin> set b \<Longrightarrow> constData b = b"
  by (auto simp: constData_def takeWhile_eq_all_conv)

lemma split_serialise:
  "split LF (serialise xs) = concat (map (\<lambda>e. split LF (constData e)) xs) @ [[]]"
  by (induction xs) (simp_all add: serialise_def split_append_sep)

lemma stored_serialise: "set (stored_set (serialise xs)) = lines_of (set xs)"
  by (auto simp: set_stored_set split_serialise lines_of_def)

lemma NUL_serialise [simp]: "NUL \<notin> set (serialise xs)"
  by (auto simp: serialise_def)

lemma plain_lines: "plain e \<Longrightarrow> set (split LF (constData e)) - {[]} = {e}"
  by (auto simp: plain_def constData_id split_no_sep)

lemma stored_plain: "NUL \<notin> set v \<Longrightarrow> e \<in> set (stored_set v) \<Longrightarrow> plain e"
  by (auto simp: set_stored_set plain_def dest: split_pieces)

lemma lines_of_Un: "lines_of (A \<union> B) = lines_of A \<union> lines_of B"
  by (auto simp: lines_of_def)

lemma lines_of_mono: "A \<subseteq> B \<Longrightarrow> lines_of A \<subseteq> lines_of B"
  by (auto simp: lines_of_def)

lemma lines_of_plain:
  assumes "\<forall>e\<in>A. plain e"
  shows "lines_of A = A"
proof -
  have "lines_of A = (\<Union>e\<in>A. set (split LF (constData e)) - {[]})"
    by (auto simp: lines_of_def)
  also have "\<dots> = (\<Union>e\<in>A. {e})"
    using assms by (simp add: plain_lines)
  finally show ?thesis by simp
qed

section \<open>Properties of syncData\<close>

lemma read_at_eq: "read_at rd db key = (if rd key then stored_at db key else {})"
  by (simp add: read_at_def stored_at_def Get_def stored_set_def toSet_def qset_remove_def
      qset_insert_def)

lemma sync_loop_Cons:
  "sync_loop rd db (e # data) batch =
     sync_loop rd db data (batch @ (if needs_put rd db e then [put_of rd db e] else []))"
  by (cases e) (simp add: Let_def skip_test needs_put_def put_of_def read_at_def)

lemma sync_loop_eq:
  "sync_loop rd db data batch = batch @ map (put_of rd db) (filter (needs_put rd db) data)"
proof (induction data arbitrary: batch)
  case Nil
  show ?case by simp
next
  case (Cons e data)
  show ?case by (simp only: sync_loop_Cons Cons.IH) simp
qed

lemma Write_snoc: "Write (batch @ [(k, v)]) db = (Write batch db)(k \<mapsto> v)"
  by (simp add: Write_def)

lemma Write_lookup:
  "Write batch db k = (case map_of (rev batch) k of None \<Rightarrow> db k | Some v \<Rightarrow> Some v)"
proof (induction batch rule: rev_induct)
  case Nil
  show ?case by (simp add: Write_def)
next
  case (snoc p batch)
  obtain k' v' where p: "p = (k', v')" by (cases p)
  show ?case using snoc by (simp add: p Write_snoc)
qed

lemma Write_frame:
  assumes "k \<notin> fst ` set batch"
  shows "Write batch db k = db k"
proof -
  from assms have "map_of (rev batch) k = None"
    by (simp add: map_of_eq_None_iff)
  then show ?thesis by (simp add: Write_lookup)
qed

lemma Write_cases:
  "Write batch db k = Some v \<Longrightarrow> (k, v) \<in> set batch \<or> db k = Some v"
  by (auto simp: Write_lookup split: option.splits dest: map_of_SomeD)

lemma batch_keys: "fst ` set (sync_loop rd db data []) \<subseteq> constData ` fst ` set data"
  by (force simp: sync_loop_eq put_of_def)

lemma batch_values: "(k, v) \<in> set (sync_loop rd db data []) \<Longrightarrow> NUL \<notin> set v"
  by (auto simp: sync_loop_eq put_of_def)

lemma NUL_free_Get: "NUL_free db \<Longrightarrow> NUL \<notin> set (Get ok db k)"
  by (cases ok; cases "db k") (auto simp: NUL_free_def Get_def)

lemma NUL_free_Write:
  assumes "NUL_free db"
  shows "NUL_free (Write (sync_loop rd db data []) db)"
  unfolding NUL_free_def
proof (intro allI impI)
  fix k v assume "Write (sync_loop rd db data []) db k = Some v"
  then have "(k, v) \<in> set (sync_loop rd db data []) \<or> db k = Some v"
    by (rule Write_cases)
  then show "NUL \<notin> set v" using assms batch_values
    by (auto simp: NUL_free_def)
qed

lemma written_NUL_free: "written_by_sync db \<Longrightarrow> NUL_free db"
proof (induction rule: written_by_sync.induct)
  case empty
  show ?case by (simp add: NUL_free_def)
next
  case (batch db rd data)
  then show ?case by (simp add: NUL_free_Write)
qed

lemma stored_at_plain: "NUL_free db \<Longrightarrow> e \<in> stored_at db k \<Longrightarrow> plain e"
  unfolding stored_at_def by (rule stored_plain[OF NUL_free_Get])

lemma lines_of_stored: "NUL_free db \<Longrightarrow> lines_of (stored_at db k) = stored_at db k"
  by (intro lines_of_plain) (auto intro: stored_at_plain)

text \<open>What syncData does to the world, by cases of its three early outcomes.\<close>

lemma syncData_cases:
  "syncData env type data w =
     (if databaseName env type = [] \<or> \<not> open_ok env type then (data, w)
      else if write_ok env type
      then ([], w\<lparr>disk := (disk w)(databaseName env type :=
                   Write (sync_loop (read_ok env type) (disk w (databaseName env type)) data [])
                     (disk w (databaseName env type)))\<rparr>)
      else ([], w))"
  by (simp add: syncData_def Let_def)

lemma syncData_disk:
  "disk (snd (syncData env type data w)) name =
     (if databaseName env type \<noteq> [] \<and> open_ok env type \<and> write_ok env type
         \<and> name = databaseName env type
      then Write (sync_loop (read_ok env type) (disk w name) data []) (disk w name)
      else disk w name)"
  by (simp add: syncData_cases)

lemma syncData_written:
  assumes "\<forall>name. written_by_sync (disk w name)"
  shows "written_by_sync (disk (snd (syncData env type data w)) name)"
  using assms by (simp add: syncData_disk written_by_sync.batch)

lemma fresh_written: "written_by_sync (disk fresh_world name)"
  by (simp add: fresh_world_def written_by_sync.empty)

lemmas example_simps =
  example_env_def fresh_world_def fresh_impl_def syncData_cases Write_def Get_def
  stored_at_def read_at_def stored_set_def serialise_def constData_def toSet_def
  qset_insert_def qset_unite_def qset_intersect_def qset_size_def qset_remove_def LF_def
  NUL_def Let_def

section \<open>What a sync stores\<close>

lemma map_of_hs_value: "map_of h k = Some s \<Longrightarrow> hs_value h k = set s"
  by (simp add: hs_value_def)

lemma lines_of_empty [simp]: "lines_of {} = {}"
  by (simp add: lines_of_def)

lemma hs_value_Nil [simp]: "hs_value [] k = {}"
  by (simp add: hs_value_def)

text \<open>
  With one entry per key, keys without NUL and a database without NUL in its values: when
  the read of a key succeeds, the set stored under it after the commit is the set stored
  before together with what the staged set reads back as. When the read fails and
  something is staged for the key, the set stored after the commit is what the staged
  set reads back as, and nothing else.
\<close>

lemma sync_effect:
  assumes keys: "c_string_keys h" and nf: "NUL_free db"
  shows "stored_at (Write (sync_loop rd db h []) db) k =
           (if rd k then stored_at db k \<union> lines_of (hs_value h k)
            else if hs_value h k = {} then stored_at db k
            else lines_of (hs_value h k))"
proof -
  let ?batch = "sync_loop rd db h []"
  have cd: "e \<in> set h \<Longrightarrow> constData (fst e) = fst e" for e
    using keys by (auto simp: c_string_keys_def intro!: constData_id)
  have plainP: "lines_of (stored_at db k) = stored_at db k"
    using nf by (rule lines_of_stored)
  have dist: "distinct (map fst h)" using keys by (simp add: c_string_keys_def)
  show ?thesis
  proof (cases "\<exists>s. (k, s) \<in> set h \<and> needs_put rd db (k, s)")
    case True
    then obtain s where s: "(k, s) \<in> set h" "needs_put rd db (k, s)" by blast
    have ms: "map_of h k = Some s" using s(1) dist by simp
    have hv: "hs_value h k = set s" by (rule map_of_hs_value[OF ms])
    have bdist: "distinct (map fst ?batch)"
    proof -
      have "map fst ?batch = map fst (filter (needs_put rd db) h)"
        using cd by (auto simp: sync_loop_eq put_of_def)
      then show ?thesis using dist by (simp add: distinct_map_filter)
    qed
    have inb: "put_of rd db (k, s) \<in> set ?batch" using s by (simp add: sync_loop_eq)
    have pk: "put_of rd db (k, s)
                = (k, serialise (qset_unite (stored_set (Get (rd k) db k)) s))"
      using cd[OF s(1)] by (simp add: put_of_def)
    have inr: "(k, serialise (qset_unite (stored_set (Get (rd k) db k)) s)) \<in> set (rev ?batch)"
      using inb pk by simp
    have rdist: "distinct (map fst (rev ?batch))"
      using bdist by (metis distinct_rev rev_map)
    have "map_of (rev ?batch) k = Some (serialise (qset_unite (stored_set (Get (rd k) db k)) s))"
      using rdist inr by (rule map_of_is_SomeI)
    then have "Get True (Write ?batch db) k
                 = serialise (qset_unite (stored_set (Get (rd k) db k)) s)"
      by (simp add: Get_def Write_lookup)
    then have after: "stored_at (Write ?batch db) k = lines_of (read_at rd db k \<union> set s)"
      by (simp add: stored_at_def read_at_def stored_serialise)
    show ?thesis
    proof (cases "rd k")
      case True
      then show ?thesis using after plainP by (simp add: read_at_eq lines_of_Un hv)
    next
      case False
      have "set s \<noteq> {}" using s(2) cd[OF s(1)] False by (simp add: needs_put_def read_at_eq)
      then show ?thesis using after False by (simp add: read_at_eq hv)
    qed
  next
    case False
    have "k \<notin> fst ` set ?batch"
    proof
      assume "k \<in> fst ` set ?batch"
      then obtain e where e: "e \<in> set h" "needs_put rd db e" "k = constData (fst e)"
        by (auto simp: sync_loop_eq put_of_def)
      then have "(k, snd e) \<in> set h" using cd[OF e(1)] by simp
      moreover have "needs_put rd db (k, snd e)" using e cd[OF e(1)] by simp
      ultimately show False using False by blast
    qed
    then have same: "stored_at (Write ?batch db) k = stored_at db k"
      by (simp add: stored_at_def Get_def Write_frame)
    have sub: "hs_value h k \<subseteq> read_at rd db k"
    proof (cases "map_of h k")
      case None
      then show ?thesis by (simp add: hs_value_def)
    next
      case (Some s)
      then have "(k, s) \<in> set h" by (rule map_of_SomeD)
      with False have "\<not> needs_put rd db (k, s)" by blast
      then have "set s \<subseteq> read_at rd db k"
        using cd[OF \<open>(k, s) \<in> set h\<close>] by (simp add: needs_put_def)
      then show ?thesis by (simp add: map_of_hs_value[OF Some])
    qed
    show ?thesis
    proof (cases "rd k")
      case True
      with sub have "hs_value h k \<subseteq> stored_at db k" by (simp add: read_at_eq)
      then have "lines_of (hs_value h k) \<subseteq> lines_of (stored_at db k)" by (rule lines_of_mono)
      with plainP same True show ?thesis by auto
    next
      case False
      with sub have "hs_value h k = {}" by (simp add: read_at_eq)
      with same False show ?thesis by simp
    qed
  qed
qed

lemma sync_effect_within:
  assumes "c_string_keys h" and "NUL_free db"
  shows "stored_at (Write (sync_loop rd db h []) db) k
           \<subseteq> stored_at db k \<union> lines_of (hs_value h k)"
  by (simp add: sync_effect[OF assms])

text \<open>
  Without any condition on the staged keys: when the read of a key succeeds, what is
  stored under it stays stored.
\<close>

lemma put_grows:
  assumes "NUL_free db" and "rd k"
  shows "stored_at db k
           \<subseteq> set (stored_set (serialise (qset_unite (stored_set (Get (rd k) db k)) s)))"
proof -
  have "lines_of (stored_at db k) = stored_at db k"
    using assms(1) by (rule lines_of_stored)
  then show ?thesis
    using assms(2) by (simp add: stored_serialise lines_of_Un) (auto simp: stored_at_def)
qed

lemma Write_sync_grows:
  assumes "NUL_free db" and "rd k"
  shows "stored_at db k \<subseteq> stored_at (Write (sync_loop rd db data []) db) k"
proof (cases "map_of (rev (sync_loop rd db data [])) k")
  case None
  then show ?thesis by (simp add: stored_at_def Get_def Write_lookup)
next
  case (Some v)
  then have "(k, v) \<in> set (sync_loop rd db data [])" by (auto dest: map_of_SomeD)
  then obtain e where "e \<in> set data" "k = constData (fst e)"
    "v = serialise (qset_unite (stored_set (Get (rd k) db k)) (snd e))"
    by (auto simp: sync_loop_eq put_of_def)
  moreover have "Get True (Write (sync_loop rd db data []) db) k = v"
    using Some by (simp add: Get_def Write_lookup)
  ultimately show ?thesis
    using put_grows[where db = db and rd = rd and k = k and s = "snd e"] assms
    by (simp add: stored_at_def)
qed

section \<open>The claims about syncData\<close>

text \<open>
  C1 (monotonic union), as amended. Take any database that was created empty and
  written only by \<open>syncData\<close>. Whatever the staging map holds and however the open and
  the commit turn out, after \<open>syncData\<close> the set stored under a key contains the set
  stored under it before, provided the read of that key does not fail in this sync; the
  databases are again ones written only by \<open>syncData\<close>.
\<close>

theorem syncData_monotonic:
  assumes "\<forall>name. written_by_sync (disk w name)"
      and "syncData env type data w = (data', w')"
      and "read_ok env type key"
  shows "stored_at (disk w name) key \<subseteq> stored_at (disk w' name) key
         \<and> written_by_sync (disk w' name)"
proof -
  have w': "w' = snd (syncData env type data w)" using assms(2) by simp
  have "NUL_free (disk w name)" using assms(1) by (simp add: written_NUL_free)
  then have "stored_at (disk w name) key \<subseteq> stored_at (disk w' name) key"
    using Write_sync_grows[of "disk w name" "read_ok env type" key data] assms(3)
    by (auto simp: w' syncData_disk)
  moreover have "written_by_sync (disk w' name)"
    unfolding w' using assms(1) by (rule syncData_written)
  ultimately show ?thesis by simp
qed

theorem syncData_monotonic_witness:
  "(\<forall>name. written_by_sync
             (disk (snd (syncData example_env Include [(''k'', [''a''])] fresh_world)) name))
   \<and> read_ok example_env Include ''k''
   \<and> stored_at (disk (snd (syncData example_env Include [(''k'', [''a''])] fresh_world))
        ''Include'') ''k'' = {''a''}
   \<and> stored_at (disk (snd (syncData example_env Include [(''k'', [''b''])]
        (snd (syncData example_env Include [(''k'', [''a''])] fresh_world))))
        ''Include'') ''k'' = {''a'', ''b''}
   \<and> stored_at (disk (snd (syncData example_env Include [(''k'', [''a''])] fresh_world))
        ''Include'') ''k''
      \<subseteq> stored_at (disk (snd (syncData example_env Include [(''k'', [''b''])]
        (snd (syncData example_env Include [(''k'', [''a''])] fresh_world))))
        ''Include'') ''k''"
proof -
  let ?w1 = "snd (syncData example_env Include [(''k'', [''a''])] fresh_world)"
  let ?w2 = "snd (syncData example_env Include [(''k'', [''b''])] ?w1)"
  have h: "\<forall>name. written_by_sync (disk ?w1 name)"
    using syncData_written fresh_written by blast
  have r: "read_ok example_env Include ''k''" by (simp add: example_env_def)
  have a: "stored_at (disk ?w1 ''Include'') ''k'' = {''a''}"
    by (simp add: example_simps)
  have b: "stored_at (disk ?w2 ''Include'') ''k'' = {''a'', ''b''}"
    by (simp add: example_simps)
  have "stored_at (disk ?w1 ''Include'') ''k'' \<subseteq> stored_at (disk ?w2 ''Include'') ''k''"
    using syncData_monotonic[where w = ?w1 and env = example_env and type = Include
        and data = "[(''k'', [''b''])]" and w' = ?w2 and key = "''k''" and name = "''Include''"
        and data' = "fst (syncData example_env Include [(''k'', [''b''])] ?w1)"] h r
    by simp
  with h r a b show ?thesis by blast
qed

text \<open>
  The claim as stated fails when a read fails. A first sync stores \<open>a\<close> under the key
  \<open>k\<close>. In a second sync \<open>b\<close> is staged for \<open>k\<close> and the read of \<open>k\<close> fails: the open and
  the commit succeed, the loop takes the stored set to be empty, and the value written
  holds \<open>b\<close> alone.
\<close>

theorem syncData_monotonic_counterexample:
  "stored_at (disk (snd (syncData example_env Include [(''k'', [''a''])] fresh_world))
        ''Include'') ''k'' = {''a''}
   \<and> open_ok (example_env\<lparr>read_ok := \<lambda>t k. False\<rparr>) Include
   \<and> write_ok (example_env\<lparr>read_ok := \<lambda>t k. False\<rparr>) Include
   \<and> stored_at (disk (snd (syncData (example_env\<lparr>read_ok := \<lambda>t k. False\<rparr>) Include
                             [(''k'', [''b''])]
        (snd (syncData example_env Include [(''k'', [''a''])] fresh_world))))
        ''Include'') ''k'' = {''b''}
   \<and> ''a'' \<notin> stored_at (disk (snd (syncData (example_env\<lparr>read_ok := \<lambda>t k. False\<rparr>) Include
                             [(''k'', [''b''])]
        (snd (syncData example_env Include [(''k'', [''a''])] fresh_world))))
        ''Include'') ''k''"
  by (simp add: example_simps)

text \<open>
  C2 (no-op skip), as amended. The size test of line 84 holds exactly when the staged
  set is within the set the loop has read under the key: the stored set when the read
  succeeds, the empty set when it fails. In that case the loop body adds no \<open>Put\<close> for
  the entry: the batch is the one the loop builds without that entry. When every read
  succeeds and every staged set is within the stored one, the batch is empty and the
  commit leaves the database as it is.
\<close>

theorem sync_skips_stored:
  "((qset_size (qset_intersect (stored_set (Get (rd (constData key)) db (constData key))) s)
       = qset_size s)
      = (set s \<subseteq> read_at rd db (constData key)))
   \<and> read_at rd db (constData key)
       = (if rd (constData key) then stored_at db (constData key) else {})
   \<and> (set s \<subseteq> read_at rd db (constData key) \<longrightarrow>
        sync_loop rd db (before @ (key, s) # after) batch
          = sync_loop rd db (before @ after) batch)
   \<and> (rd (constData key) \<and> set s \<subseteq> stored_at db (constData key) \<longrightarrow>
        sync_loop rd db (before @ (key, s) # after) batch
          = sync_loop rd db (before @ after) batch)
   \<and> ((\<forall>(k, s')\<in>set data. rd (constData k) \<and> set s' \<subseteq> stored_at db (constData k)) \<longrightarrow>
        sync_loop rd db data [] = [] \<and> Write (sync_loop rd db data []) db = db)"
proof (intro conjI impI)
  show "(qset_size (qset_intersect (stored_set (Get (rd (constData key)) db (constData key))) s)
       = qset_size s)
      = (set s \<subseteq> read_at rd db (constData key))"
    by (simp add: skip_test read_at_def)
next
  show "read_at rd db (constData key)
       = (if rd (constData key) then stored_at db (constData key) else {})"
    by (rule read_at_eq)
next
  assume "set s \<subseteq> read_at rd db (constData key)"
  then have "\<not> needs_put rd db (key, s)" by (simp add: needs_put_def)
  then show "sync_loop rd db (before @ (key, s) # after) batch
      = sync_loop rd db (before @ after) batch"
    by (simp add: sync_loop_eq)
next
  assume "rd (constData key) \<and> set s \<subseteq> stored_at db (constData key)"
  then have "\<not> needs_put rd db (key, s)" by (simp add: needs_put_def read_at_eq)
  then show "sync_loop rd db (before @ (key, s) # after) batch
      = sync_loop rd db (before @ after) batch"
    by (simp add: sync_loop_eq)
next
  assume a: "\<forall>(k, s')\<in>set data. rd (constData k) \<and> set s' \<subseteq> stored_at db (constData k)"
  then have "filter (needs_put rd db) data = []"
    by (fastforce simp: filter_empty_conv needs_put_def read_at_eq)
  then show b: "sync_loop rd db data [] = []" by (simp add: sync_loop_eq)
  show "Write (sync_loop rd db data []) db = db" by (simp add: b Write_def)
qed

theorem sync_skips_stored_witness:
  "set [''a''] \<subseteq> stored_at [''k'' \<mapsto> ''a'' @ [LF] @ ''b'' @ [LF]] (constData ''k'')
   \<and> set [''a''] \<subseteq> read_at (\<lambda>k. True) [''k'' \<mapsto> ''a'' @ [LF] @ ''b'' @ [LF]] (constData ''k'')
   \<and> qset_size (qset_intersect
         (stored_set (Get True [''k'' \<mapsto> ''a'' @ [LF] @ ''b'' @ [LF]] (constData ''k'')))
         [''a''])
       = qset_size [''a'']
   \<and> sync_loop (\<lambda>k. True) [''k'' \<mapsto> ''a'' @ [LF] @ ''b'' @ [LF]]
        ([(''j'', [''x''])] @ (''k'', [''a'']) # []) []
       = sync_loop (\<lambda>k. True) [''k'' \<mapsto> ''a'' @ [LF] @ ''b'' @ [LF]] ([(''j'', [''x''])] @ []) []
   \<and> sync_loop (\<lambda>k. True) [''k'' \<mapsto> ''a'' @ [LF] @ ''b'' @ [LF]] [(''k'', [''a''])] [] = []
   \<and> sync_loop (\<lambda>k. True) [''k'' \<mapsto> ''a'' @ [LF] @ ''b'' @ [LF]] [(''j'', [''x''])] []
       = [(''j'', ''x'' @ [LF])]"
proof -
  let ?db = "[''k'' \<mapsto> ''a'' @ [LF] @ ''b'' @ [LF]]"
  let ?rd = "\<lambda>k::bytes. True"
  have h: "set [''a''] \<subseteq> stored_at ?db (constData ''k'')"
    by (simp add: example_simps)
  have h1: "set [''a''] \<subseteq> read_at ?rd ?db (constData ''k'')"
    using h by (simp add: read_at_eq)
  have h2: "\<forall>(k, s')\<in>set [(''k'', [''a''])]. ?rd (constData k) \<and> set s' \<subseteq> stored_at ?db (constData k)"
    using h by simp
  have "sync_loop ?rd ?db [(''j'', [''x''])] [] = [(''j'', ''x'' @ [LF])]"
    by (simp add: example_simps)
  with h h1 h2 sync_skips_stored[of ?rd "''k''" ?db "[''a'']" "[(''j'', [''x''])]" "[]" "[]"
      "[(''k'', [''a''])]"]
  show ?thesis by simp
qed

text \<open>
  The claim as stated fails when a read fails. The set \<open>a\<close>, \<open>b\<close> is stored under \<open>k\<close>
  and \<open>a\<close> is staged for \<open>k\<close>; the read of \<open>k\<close> fails, the loop takes the stored set to
  be empty, and the batch holds a \<open>Put\<close> for \<open>k\<close>. The \<open>Put\<close> replaces the stored set by
  \<open>a\<close> alone.
\<close>

theorem sync_skips_stored_counterexample:
  "set [''a''] \<subseteq> stored_at [''k'' \<mapsto> ''a'' @ [LF] @ ''b'' @ [LF]] (constData ''k'')
   \<and> sync_loop (\<lambda>k. False) [''k'' \<mapsto> ''a'' @ [LF] @ ''b'' @ [LF]] [(''k'', [''a''])] []
       = [(''k'', ''a'' @ [LF])]
   \<and> Write (sync_loop (\<lambda>k. False) [''k'' \<mapsto> ''a'' @ [LF] @ ''b'' @ [LF]] [(''k'', [''a''])] [])
        [''k'' \<mapsto> ''a'' @ [LF] @ ''b'' @ [LF]]
       = [''k'' \<mapsto> ''a'' @ [LF]]"
  by (simp add: example_simps)

text \<open>
  The keys that \<open>syncData\<close> writes are the C strings of the staged keys, whatever the
  staged keys hold.
\<close>

lemma syncData_writes_c_strings:
  assumes "key \<notin> constData ` fst ` set data \<or> name \<noteq> databaseName env type"
  shows "disk (snd (syncData env type data w)) name key = disk w name key"
proof (cases "name = databaseName env type")
  case True
  with assms have "key \<notin> fst ` set (sync_loop (read_ok env type) (disk w name) data [])"
    using batch_keys by blast
  then show ?thesis using True by (auto simp: syncData_disk Write_frame)
next
  case False
  then show ?thesis by (simp add: syncData_disk)
qed

text \<open>
  C5 (failed commit), as amended. When the database has a name and opens, the staging map
  is empty after \<open>syncData\<close> whether or not the commit succeeds; a failed commit leaves
  the world as it was, so the staged entries are lost. Nothing is written to the log: the
  status of \<open>db->Write\<close> is dropped.
\<close>

theorem syncData_clears_before_commit:
  assumes "databaseName env type \<noteq> []" and "open_ok env type"
  shows "fst (syncData env type data w) = []
         \<and> qdebug (snd (syncData env type data w)) = qdebug w
         \<and> (\<not> write_ok env type \<longrightarrow> snd (syncData env type data w) = w)"
  using assms by (simp add: syncData_cases)

theorem syncData_clears_before_commit_witness:
  "databaseName (example_env\<lparr>write_ok := \<lambda>t. False\<rparr>) Include \<noteq> []
   \<and> open_ok (example_env\<lparr>write_ok := \<lambda>t. False\<rparr>) Include
   \<and> \<not> write_ok (example_env\<lparr>write_ok := \<lambda>t. False\<rparr>) Include
   \<and> syncData (example_env\<lparr>write_ok := \<lambda>t. False\<rparr>) Include [(''k'', [''a''])] fresh_world
       = ([], fresh_world)"
proof -
  let ?env = "example_env\<lparr>write_ok := \<lambda>t. False\<rparr>"
  have h1: "databaseName ?env Include \<noteq> []" by (simp add: example_env_def)
  have h2: "open_ok ?env Include" by (simp add: example_env_def)
  have h3: "\<not> write_ok ?env Include" by (simp add: example_env_def)
  from syncData_clears_before_commit[OF h1 h2, of "[(''k'', [''a''])]" fresh_world] h3
  have "syncData ?env Include [(''k'', [''a''])] fresh_world = ([], fresh_world)"
    by (simp add: prod_eq_iff)
  with h1 h2 h3 show ?thesis by blast
qed

text \<open>A commit that fails: the entries are gone, nothing is stored, the log is empty.\<close>

theorem failed_commit_is_not_logged_counterexample:
  "\<not> write_ok (example_env\<lparr>write_ok := \<lambda>t. False\<rparr>) Include
   \<and> qdebug fresh_world = []
   \<and> qdebug (snd (syncData (example_env\<lparr>write_ok := \<lambda>t. False\<rparr>) Include
                     [(''k'', [''a''])] fresh_world)) = []
   \<and> fst (syncData (example_env\<lparr>write_ok := \<lambda>t. False\<rparr>) Include
                     [(''k'', [''a''])] fresh_world) = []
   \<and> disk (snd (syncData (example_env\<lparr>write_ok := \<lambda>t. False\<rparr>) Include
                     [(''k'', [''a''])] fresh_world)) ''Include'' ''k'' = None"
  by (simp add: example_simps)

section \<open>The claims about the coordinator\<close>

lemma next_id_result:
  "next_id js l = Some (r, n) \<Longrightarrow>
     l \<le> r \<and> r < INT_MAX \<and> r \<notin> fst ` set js \<and> n = r + 1"
proof (induction js l rule: next_id.induct)
  case (1 js lastId)
  show ?case
  proof (cases "lastId \<in> set (map fst js)")
    case True
    with "1.prems" have lt: "\<not> INT_MAX \<le> lastId" and rec: "next_id js (lastId + 1) = Some (r, n)"
      by (auto simp: next_id.simps[of js lastId] split: if_splits)
    from "1.IH"[OF lt True rec] show ?thesis by simp
  next
    case False
    with "1.prems" show ?thesis
      by (auto simp: next_id.simps[of js lastId] split: if_splits)
  qed
qed

lemma next_id_defined:
  "l \<le> i \<Longrightarrow> i < INT_MAX \<Longrightarrow> i \<notin> fst ` set js \<Longrightarrow> \<exists>r. r \<le> i \<and> next_id js l = Some (r, r + 1)"
proof (induction js l rule: next_id.induct)
  case (1 js lastId)
  show ?case
  proof (cases "lastId \<in> set (map fst js)")
    case True
    with "1.prems" have ne: "lastId \<noteq> i" by auto
    with "1.prems" have lt: "\<not> INT_MAX \<le> lastId" and le: "lastId + 1 \<le> i" by auto
    from "1.IH"[OF lt True le "1.prems"(2,3)] obtain r where
      "r \<le> i" "next_id js (lastId + 1) = Some (r, r + 1)" by blast
    with True lt show ?thesis by (auto simp: next_id.simps[of js lastId])
  next
    case False
    with "1.prems" show ?thesis
      by (auto simp: next_id.simps[of js lastId] intro!: exI[of _ lastId])
  qed
qed

lemma map_of_AList_update: "map_of (AList.update k v al) = (map_of al)(k \<mapsto> v)"
  by (rule AList.update_conv')

lemma map_of_AList_delete: "map_of (AList.delete k al) = (map_of al)(k := None)"
  by (rule AList.delete_conv')

text \<open>
  C4 (admission). \<open>lastJobId\<close> starts at 0 and is only ever incremented, so it is not
  negative. Then \<open>index\<close> returns \<open>-1\<close> and changes nothing when the input is already in
  \<open>indexing\<close>; otherwise every id it returns is not \<open>-1\<close> and was not a key of \<open>jobs\<close>, the
  input is inserted into \<open>indexing\<close>, the job is recorded under the id and handed to the
  thread pool; and it does return an id as long as some id from \<open>lastJobId\<close> up to
  \<open>INT_MAX - 1\<close> is free.
\<close>

theorem index_admission:
  assumes "0 \<le> lastJobId impl"
  shows "(input \<in> set (indexing impl) \<longrightarrow>
            index input arguments mode impl w = Some (- 1, impl, w))
       \<and> (input \<notin> set (indexing impl) \<longrightarrow>
            (\<forall>ident impl' w'.
               index input arguments mode impl w = Some (ident, impl', w') \<longrightarrow>
                 ident \<noteq> - 1
                 \<and> ident \<notin> fst ` set (jobs impl)
                 \<and> impl' = impl\<lparr>lastJobId := ident + 1,
                                 indexing := qset_insert input (indexing impl),
                                 jobs := AList.update ident
                                           (new_job mode ident (path impl) input arguments)
                                           (jobs impl)\<rparr>
                 \<and> set (indexing impl') = insert input (set (indexing impl))
                 \<and> map_of (jobs impl')
                     = (map_of (jobs impl))
                         (ident \<mapsto> new_job mode ident (path impl) input arguments)
                 \<and> w' = w\<lparr>pool := pool w
                              @ [new_job mode ident (path impl) input arguments]\<rparr>)
            \<and> ((\<exists>i. lastJobId impl \<le> i \<and> i < INT_MAX \<and> i \<notin> fst ` set (jobs impl)) \<longrightarrow>
                 (\<exists>ident impl' w'.
                    index input arguments mode impl w = Some (ident, impl', w'))))"
proof (intro conjI impI allI)
  assume "input \<in> set (indexing impl)"
  then show "index input arguments mode impl w = Some (- 1, impl, w)"
    by (simp add: index_def)
next
  fix ident impl' w'
  assume fresh: "input \<notin> set (indexing impl)"
    and res: "index input arguments mode impl w = Some (ident, impl', w')"
  from fresh res obtain n where n: "next_id (jobs impl) (lastJobId impl) = Some (ident, n)"
    by (auto simp: index_def Let_def split: option.splits)
  from next_id_result[OF n] have r: "lastJobId impl \<le> ident" "ident \<notin> fst ` set (jobs impl)"
    "n = ident + 1" by simp_all
  show "ident \<noteq> - 1" using r(1) assms by simp
  show "ident \<notin> fst ` set (jobs impl)" by (rule r(2))
  show i': "impl' = impl\<lparr>lastJobId := ident + 1,
                     indexing := qset_insert input (indexing impl),
                     jobs := AList.update ident
                               (new_job mode ident (path impl) input arguments) (jobs impl)\<rparr>"
    using fresh res n r(3) by (simp add: index_def Let_def)
  show "set (indexing impl') = insert input (set (indexing impl))"
    by (simp add: i')
  show "map_of (jobs impl')
      = (map_of (jobs impl))(ident \<mapsto> new_job mode ident (path impl) input arguments)"
    by (simp add: i' map_of_AList_update)
  show "w' = w\<lparr>pool := pool w @ [new_job mode ident (path impl) input arguments]\<rparr>"
    using fresh res n by (simp add: index_def Let_def)
next
  assume fresh: "input \<notin> set (indexing impl)"
    and "\<exists>i. lastJobId impl \<le> i \<and> i < INT_MAX \<and> i \<notin> fst ` set (jobs impl)"
  then obtain i where "lastJobId impl \<le> i" "i < INT_MAX" "i \<notin> fst ` set (jobs impl)" by blast
  from next_id_defined[OF this] obtain r where
    "next_id (jobs impl) (lastJobId impl) = Some (r, r + 1)" by blast
  with fresh show "\<exists>ident impl' w'. index input arguments mode impl w = Some (ident, impl', w')"
    by (simp add: index_def Let_def)
qed

theorem index_admission_witness:
  "0 \<le> lastJobId fresh_impl
   \<and> ''/a.c'' \<notin> set (indexing fresh_impl)
   \<and> index ''/a.c'' [''-I.''] Normal fresh_impl fresh_world
       = Some (0,
               fresh_impl\<lparr>lastJobId := 1, indexing := [''/a.c''],
                           jobs := [(0, new_job Normal 0 ''/db'' ''/a.c'' [''-I.''])]\<rparr>,
               fresh_world\<lparr>pool := [new_job Normal 0 ''/db'' ''/a.c'' [''-I.'']]\<rparr>)
   \<and> (0::int) \<noteq> - 1
   \<and> index ''/a.c'' [''-I.''] Normal
        (fresh_impl\<lparr>lastJobId := 1, indexing := [''/a.c''],
                     jobs := [(0, new_job Normal 0 ''/db'' ''/a.c'' [''-I.''])]\<rparr>)
        fresh_world
       = Some (- 1,
               fresh_impl\<lparr>lastJobId := 1, indexing := [''/a.c''],
                           jobs := [(0, new_job Normal 0 ''/db'' ''/a.c'' [''-I.''])]\<rparr>,
               fresh_world)"
proof -
  have a: "index ''/a.c'' [''-I.''] Normal fresh_impl fresh_world
       = Some (0,
               fresh_impl\<lparr>lastJobId := 1, indexing := [''/a.c''],
                           jobs := [(0, new_job Normal 0 ''/db'' ''/a.c'' [''-I.''])]\<rparr>,
               fresh_world\<lparr>pool := [new_job Normal 0 ''/db'' ''/a.c'' [''-I.'']]\<rparr>)"
    by (simp add: index_def fresh_impl_def fresh_world_def next_id.simps INT_MAX_def
        qset_insert_def Let_def)
  have h: "0 \<le> lastJobId fresh_impl" "''/a.c'' \<notin> set (indexing fresh_impl)"
    by (simp_all add: fresh_impl_def)
  have h2: "0 \<le> lastJobId (fresh_impl\<lparr>lastJobId := 1, indexing := [''/a.c''],
                     jobs := [(0, new_job Normal 0 ''/db'' ''/a.c'' [''-I.''])]\<rparr>)"
    by (simp add: fresh_impl_def)
  from index_admission[OF h(1), of "''/a.c''" "[''-I.'']" Normal fresh_world] h(2) a
  have "(0::int) \<noteq> - 1" by blast
  moreover from index_admission[OF h2, of "''/a.c''" "[''-I.'']" Normal fresh_world]
  have "index ''/a.c'' [''-I.''] Normal
        (fresh_impl\<lparr>lastJobId := 1, indexing := [''/a.c''],
                     jobs := [(0, new_job Normal 0 ''/db'' ''/a.c'' [''-I.''])]\<rparr>)
        fresh_world
       = Some (- 1,
               fresh_impl\<lparr>lastJobId := 1, indexing := [''/a.c''],
                           jobs := [(0, new_job Normal 0 ''/db'' ''/a.c'' [''-I.''])]\<rparr>,
               fresh_world)"
    by simp
  ultimately show ?thesis using h a by blast
qed

lemma sync_all_eq:
  "sync_all env impl w =
     (let r1 = syncData env Include (incs impl) w;
          r2 = syncData env Definition (defs impl) (snd r1);
          r3 = syncData env Reference (refs impl) (snd r2);
          r4 = syncData env Symbol (syms impl) (snd r3)
      in (impl\<lparr>incs := fst r1, defs := fst r2, refs := fst r3, syms := fst r4\<rparr>, snd r4))"
  by (simp add: sync_all_def Let_def split_beta)

lemma syncData_other_fields:
  "qdebug (snd (syncData env type data w)) = qdebug w"
  "pool (snd (syncData env type data w)) = pool w"
  "emitted (snd (syncData env type data w)) = emitted w"
  by (simp_all add: syncData_cases)

lemma sync_all_fields:
  "jobs (fst (sync_all env impl w)) = jobs impl"
  "indexing (fst (sync_all env impl w)) = indexing impl"
  "jobCounter (fst (sync_all env impl w)) = jobCounter impl"
  "lastJobId (fst (sync_all env impl w)) = lastJobId impl"
  "path (fst (sync_all env impl w)) = path impl"
  "qdebug (snd (sync_all env impl w)) = qdebug w"
  "pool (snd (sync_all env impl w)) = pool w"
  "emitted (snd (sync_all env impl w)) = emitted w"
  by (simp_all add: sync_all_eq Let_def syncData_other_fields)

text \<open>
  C3 (completion). With \<open>jobCounter\<close> below \<open>INT_MAX\<close> (it never exceeds 10),
  \<open>jobDone\<close> returns; it removes the id from \<open>jobs\<close> and the file from \<open>indexing\<close> and
  emits \<open>indexingDone(id)\<close> in every case. When \<open>jobs\<close> is empty afterwards or the
  incremented counter is \<open>SYNCINTERVAL = 10\<close>, the four categories are synced in the order
  Include, Definition, Reference, Symbol and the counter is 0; otherwise the counter is
  incremented and neither the staging maps nor the databases nor the log change.
\<close>

theorem jobDone_completion:
  assumes "jobCounter impl < INT_MAX"
  shows "SYNCINTERVAL = 10 \<and>
    (\<exists>impl' w'.
       jobDone env ident filename impl w = Some (impl', w')
       \<and> map_of (jobs impl') = (map_of (jobs impl))(ident := None)
       \<and> set (indexing impl') = set (indexing impl) - {filename}
       \<and> emitted w' = emitted w @ [IndexingDone ident]
       \<and> pool w' = pool w
       \<and> (if jobs impl' = [] \<or> jobCounter impl + 1 = SYNCINTERVAL
          then jobCounter impl' = 0
               \<and> qdebug w' = qdebug w @ [Syncing, Synced]
               \<and> (let r1 = syncData env Include (incs impl) (qDebug Syncing w);
                       r2 = syncData env Definition (defs impl) (snd r1);
                       r3 = syncData env Reference (refs impl) (snd r2);
                       r4 = syncData env Symbol (syms impl) (snd r3)
                   in incs impl' = fst r1 \<and> defs impl' = fst r2 \<and> refs impl' = fst r3
                      \<and> syms impl' = fst r4 \<and> disk w' = disk (snd r4))
          else jobCounter impl' = jobCounter impl + 1
               \<and> qdebug w' = qdebug w
               \<and> incs impl' = incs impl \<and> defs impl' = defs impl \<and> refs impl' = refs impl
               \<and> syms impl' = syms impl \<and> disk w' = disk w))"
proof -
  let ?impl1 = "impl\<lparr>jobs := AList.delete ident (jobs impl),
                      indexing := qset_remove filename (indexing impl),
                      jobCounter := jobCounter impl + 1\<rparr>"
  show ?thesis
  proof (cases "AList.delete ident (jobs impl) = [] \<or> jobCounter impl + 1 = SYNCINTERVAL")
    case True
    let ?r = "sync_all env ?impl1 (qDebug Syncing w)"
    have jd: "jobDone env ident filename impl w
       = Some ((fst ?r)\<lparr>jobCounter := 0\<rparr>, emit (IndexingDone ident) (qDebug Synced (snd ?r)))"
      using assms True by (simp add: jobDone_def Let_def split_beta)
    show ?thesis
      apply (rule conjI)
       apply (simp add: SYNCINTERVAL_def)
      apply (rule exI[of _ "(fst ?r)\<lparr>jobCounter := 0\<rparr>"])
      apply (rule exI[of _ "emit (IndexingDone ident) (qDebug Synced (snd ?r))"])
      using True
      apply (simp add: jd sync_all_fields map_of_AList_delete emit_def qDebug_def)
      apply (simp add: sync_all_eq Let_def)
      done
  next
    case False
    have jd: "jobDone env ident filename impl w = Some (?impl1, emit (IndexingDone ident) w)"
      using assms False by (simp add: jobDone_def Let_def)
    show ?thesis
      apply (rule conjI)
       apply (simp add: SYNCINTERVAL_def)
      apply (rule exI[of _ ?impl1])
      apply (rule exI[of _ "emit (IndexingDone ident) w"])
      using False
      apply (simp add: jd map_of_AList_delete emit_def)
      done
  qed
qed

theorem jobDone_completion_witness:
  "jobCounter (fresh_impl\<lparr>jobs := [(0, new_job Normal 0 ''/db'' ''/a.c'' [])],
                          indexing := [''/a.c''],
                          defs := [(''u'', [''/a.c:1:5''])]\<rparr>) < INT_MAX
   \<and> map_option
        (\<lambda>r. (jobCounter (fst r), jobs (fst r), indexing (fst r), defs (fst r),
              emitted (snd r), qdebug (snd r), disk (snd r) ''Definition'' ''u''))
        (jobDone example_env 0 ''/a.c''
           (fresh_impl\<lparr>jobs := [(0, new_job Normal 0 ''/db'' ''/a.c'' [])],
                        indexing := [''/a.c''],
                        defs := [(''u'', [''/a.c:1:5''])]\<rparr>)
           fresh_world)
       = Some (0, [], [], [], [IndexingDone 0], [Syncing, Synced], Some (''/a.c:1:5'' @ [LF]))
   \<and> map_option
        (\<lambda>r. (jobCounter (fst r), map fst (jobs (fst r)), indexing (fst r), defs (fst r),
              emitted (snd r), qdebug (snd r), disk (snd r) ''Definition'' ''u''))
        (jobDone example_env 0 ''/a.c''
           (fresh_impl\<lparr>jobs := [(0, new_job Normal 0 ''/db'' ''/a.c'' []),
                                 (1, new_job Normal 1 ''/db'' ''/b.c'' [])],
                        indexing := [''/a.c'', ''/b.c''],
                        defs := [(''u'', [''/a.c:1:5''])]\<rparr>)
           fresh_world)
       = Some (1, [1], [''/b.c''], [(''u'', [''/a.c:1:5''])], [IndexingDone 0], [], None)"
proof -
  have h: "jobCounter (fresh_impl\<lparr>jobs := [(0, new_job Normal 0 ''/db'' ''/a.c'' [])],
                          indexing := [''/a.c''],
                          defs := [(''u'', [''/a.c:1:5''])]\<rparr>) < INT_MAX"
    by (simp add: fresh_impl_def INT_MAX_def)
  from jobDone_completion[OF h, of example_env 0 "''/a.c''" fresh_world]
  show ?thesis
    by (simp add: jobDone_def sync_all_def qDebug_def emit_def SYNCINTERVAL_def INT_MAX_def
        AList.delete_eq sync_loop.simps example_simps)
qed

text \<open>
  C9 (reindex). When the Information record is missing, is an empty list, or starts with an
  empty input path, \<open>reindex\<close> returns \<open>-1\<close> and leaves the coordinator, the pool, the
  signals and the databases alone. Otherwise it is \<open>index\<close> on the first element as input
  and the remaining elements as arguments, with \<open>index\<close>'s result.
\<close>

theorem reindex_rejects_or_delegates:
  "((information env filename = None \<or> information env filename = Some []
      \<or> (\<exists>arguments. information env filename = Some ([] # arguments))) \<longrightarrow>
      (\<exists>w'. reindex env filename mode impl w = Some (- 1, impl, w')
            \<and> pool w' = pool w \<and> emitted w' = emitted w \<and> disk w' = disk w))
   \<and> (\<forall>input arguments.
        information env filename = Some (input # arguments) \<and> input \<noteq> [] \<longrightarrow>
          reindex env filename mode impl w
            = index input arguments mode impl
                (qDebug (Reindexing input arguments) (qDebug (TryingToReindex filename) w)))"
  by (auto simp: reindex_def Let_def qDebug_def)

theorem reindex_rejects_or_delegates_witness:
  "information example_env ''/a.c'' = None
   \<and> reindex example_env ''/a.c'' Force fresh_impl fresh_world
       = Some (- 1, fresh_impl,
               fresh_world\<lparr>qdebug := [TryingToReindex ''/a.c'', ResourceDoesNotExist]\<rparr>)
   \<and> information (example_env\<lparr>information := [''/a.c'' \<mapsto> [''/src/a.c'', ''-I.'']]\<rparr>) ''/a.c''
       = Some (''/src/a.c'' # [''-I.''])
   \<and> reindex (example_env\<lparr>information := [''/a.c'' \<mapsto> [''/src/a.c'', ''-I.'']]\<rparr>) ''/a.c''
        Force fresh_impl fresh_world
       = index ''/src/a.c'' [''-I.''] Force fresh_impl
           (qDebug (Reindexing ''/src/a.c'' [''-I.'']) (qDebug (TryingToReindex ''/a.c'') fresh_world))
   \<and> map_option fst
        (reindex (example_env\<lparr>information := [''/a.c'' \<mapsto> [''/src/a.c'', ''-I.'']]\<rparr>) ''/a.c''
           Force fresh_impl fresh_world) = Some 0"
proof -
  let ?env = "example_env\<lparr>information := [''/a.c'' \<mapsto> [''/src/a.c'', ''-I.'']]\<rparr>"
  have a: "information example_env ''/a.c'' = None"
    by (simp add: example_env_def)
  have b: "information ?env ''/a.c'' = Some (''/src/a.c'' # [''-I.''])"
    by (simp add: example_env_def)
  have c: "reindex example_env ''/a.c'' Force fresh_impl fresh_world
       = Some (- 1, fresh_impl,
               fresh_world\<lparr>qdebug := [TryingToReindex ''/a.c'', ResourceDoesNotExist]\<rparr>)"
    by (simp add: reindex_def example_env_def qDebug_def fresh_world_def)
  have d: "reindex ?env ''/a.c'' Force fresh_impl fresh_world
       = index ''/src/a.c'' [''-I.''] Force fresh_impl
           (qDebug (Reindexing ''/src/a.c'' [''-I.'']) (qDebug (TryingToReindex ''/a.c'') fresh_world))"
    using reindex_rejects_or_delegates[of ?env "''/a.c''" Force fresh_impl fresh_world] b
    by simp
  have e: "map_option fst (reindex ?env ''/a.c'' Force fresh_impl fresh_world) = Some 0"
    by (subst d) (simp add: index_def fresh_impl_def next_id.simps INT_MAX_def Let_def)
  from a b c d e show ?thesis by blast
qed

text \<open>
  The hypotheses of C3 and C4 hold along every run: the constructor sets both counters to
  0, and \<open>index\<close> and \<open>jobDone\<close> keep \<open>lastJobId\<close> non-negative and \<open>jobCounter\<close> within
  0 to 9.
\<close>

lemma index_keeps_counters:
  assumes "0 \<le> lastJobId impl" and "index input arguments mode impl w = Some (ident, impl', w')"
  shows "0 \<le> lastJobId impl' \<and> jobCounter impl' = jobCounter impl"
proof (cases "input \<in> set (indexing impl)")
  case True
  with assms show ?thesis by (simp add: index_def)
next
  case False
  with assms(2) obtain n where n: "next_id (jobs impl) (lastJobId impl) = Some (ident, n)"
    and i': "impl' = impl\<lparr>lastJobId := n, indexing := qset_insert input (indexing impl),
                jobs := AList.update ident (new_job mode ident (path impl) input arguments)
                          (jobs impl)\<rparr>"
    by (auto simp: index_def Let_def split: option.splits)
  from next_id_result[OF n] assms(1) show ?thesis by (simp add: i')
qed

lemma jobDone_keeps_counters:
  assumes "0 \<le> jobCounter impl \<and> jobCounter impl \<le> 9"
      and "jobDone env ident filename impl w = Some (impl', w')"
  shows "0 \<le> jobCounter impl' \<and> jobCounter impl' \<le> 9 \<and> lastJobId impl' = lastJobId impl"
  using assms
  by (auto simp: jobDone_def Let_def split_beta SYNCINTERVAL_def INT_MAX_def sync_all_fields
           split: if_splits)

section \<open>The claim about the filename symbol\<close>

lemma nth_neq: "c \<notin> set f \<Longrightarrow> i < length f \<Longrightarrow> f ! i \<noteq> c"
  by (metis nth_mem)

text \<open>
  When the first pass of the loop, entered with \<open>idx = -1\<close>, ends its inner loop at
  \<open>idx = 0\<close>, line 291 sets \<open>idx\<close> back to \<open>-1\<close>, line 292 does not leave, and the next pass
  is the first pass again.
\<close>

lemma basename_loop_restarts:
  assumes "fst (skip_backslashes f (lastIndexOf f CHR ''/'' (- 1)) 0) = 0"
  shows "basename_loop f (- 1) = None"
proof (cases "basename_loop f (- 1)")
  case (Some y)
  have "\<not> (f = f \<and> (- 1 :: int) = - 1)"
  proof (rule basename_loop.raw_induct[where P = "\<lambda>g i y. \<not> (g = f \<and> i = - 1)", OF _ Some])
    fix bl g i z
    assume IH: "\<And>g i z. bl g i = Some z \<Longrightarrow> \<not> (g = f \<and> i = - 1)"
      and body: "(let found = skip_backslashes g (lastIndexOf g CHR ''/'' i) 0;
                idx1 = fst found; backslashes = snd found
            in if backslashes mod 2 \<noteq> 0 \<or> idx1 = 0
               then if idx1 - 1 = 0 then Some (idx1 - 1) else bl g (idx1 - 1)
               else Some (idx1 + backslashes)) = Some z"
    show "\<not> (g = f \<and> i = - 1)"
    proof
      assume gi: "g = f \<and> i = - 1"
      with body assms have "bl f (- 1) = Some z" by (simp add: Let_def)
      with IH show False by blast
    qed
  qed
  then show ?thesis by simp
qed simp

lemma lastIndexOf_leading_slash:
  assumes "CHR ''/'' \<notin> set rest"
  shows "lastIndexOf (CHR ''/'' # rest) CHR ''/'' (- 1) = 0"
proof -
  have "n \<le> length rest \<Longrightarrow> search_back (CHR ''/'' # rest) CHR ''/'' n = 0" for n
    using assms by (induction n) (auto simp: byte_at_def nth_neq)
  then show ?thesis by (simp add: lastIndexOf_def)
qed

lemma search_back_no_slash: "CHR ''/'' \<notin> set f \<Longrightarrow> search_back f CHR ''/'' n = - 1"
  by (induction n) (auto simp: byte_at_def NUL_def nth_neq)

text \<open>The parts of the claim that hold: a filename without a slash inserts nothing.\<close>

lemma addFilenameSymbol_no_slash:
  assumes "CHR ''/'' \<notin> set f"
  shows "addFilenameSymbol f job = Some job"
proof -
  have "lastIndexOf f CHR ''/'' (- 1) = - 1"
    using assms by (simp add: lastIndexOf_def search_back_no_slash Let_def)
  then show ?thesis
    by (simp add: addFilenameSymbol_def basename_loop.simps skip_backslashes.simps)
qed

text \<open>
  C8 (filename symbol), where the code fails. For every filename whose only slash is its
  first byte, that is every file directly in the root directory, \<open>addFilenameSymbol\<close> does
  not return: the loop of lines 283 to 298 runs forever. The claim says that it terminates
  and inserts the bytes after the slash.
\<close>

theorem addFilenameSymbol_hangs_in_root:
  assumes "CHR ''/'' \<notin> set rest"
  shows "addFilenameSymbol (CHR ''/'' # rest) job = None"
  using assms
  by (simp add: addFilenameSymbol_def basename_loop_restarts lastIndexOf_leading_slash
      skip_backslashes.simps)

theorem addFilenameSymbol_hangs_in_root_witness:
  "CHR ''/'' \<notin> set ''a''
   \<and> addFilenameSymbol ''/a'' (new_job Normal 0 ''/db'' ''/a'' []) = None"
  using addFilenameSymbol_hangs_in_root[of "''a''" "new_job Normal 0 ''/db'' ''/a'' []"]
  by simp

section \<open>Properties of the staging maps\<close>

lemma hs_unite_keys: "fst ` set (hs_unite k s h) = insert k (fst ` set h)"
proof (induction h)
  case Nil
  show ?case by simp
next
  case (Cons e h)
  obtain k' s' where e: "e = (k', s')" by (cases e)
  show ?case using Cons by (cases "k = k'") (simp_all add: e insert_commute)
qed

lemma hs_unite_distinct: "distinct (map fst h) \<Longrightarrow> distinct (map fst (hs_unite k s h))"
proof (induction h)
  case Nil
  show ?case by simp
next
  case (Cons e h)
  obtain k' s' where e: "e = (k', s')" by (cases e)
  show ?case
  proof (cases "k = k'")
    case True
    with Cons.prems show ?thesis by (simp add: e)
  next
    case False
    have "k' \<notin> fst ` set (hs_unite k s h)"
      using Cons.prems False by (simp add: hs_unite_keys e)
    with Cons False show ?thesis by (simp add: e)
  qed
qed




lemma c_string_keys_unite:
  assumes "c_string_keys h" and "NUL \<notin> set k"
  shows "c_string_keys (hs_unite k s h)"
  using assms by (simp add: c_string_keys_def hs_unite_distinct hs_unite_keys)

lemma c_string_keys_insert:
  "c_string_keys h \<Longrightarrow> NUL \<notin> set k \<Longrightarrow> c_string_keys (hs_insert k v h)"
  by (simp add: hs_insert_def c_string_keys_unite)

lemma no_self_unite:
  assumes "no_self h" and "k \<notin> set s"
  shows "no_self (hs_unite k s h)"
  using assms(1)
proof (induction h)
  case Nil
  show ?case using assms(2) by (simp add: no_self_def)
next
  case (Cons e h)
  obtain k0 s0 where e: "e = (k0, s0)" by (cases e)
  from Cons.prems have hd: "k0 \<notin> set s0" and tl: "no_self h" by (simp_all add: no_self_def e)
  show ?case
  proof (cases "k = k0")
    case True
    then show ?thesis using hd tl assms(2) by (simp add: no_self_def e)
  next
    case False
    then show ?thesis using hd Cons.IH[OF tl] by (simp add: no_self_def e)
  qed
qed

lemma no_self_insert: "no_self h \<Longrightarrow> k \<noteq> v \<Longrightarrow> no_self (hs_insert k v h)"
  by (simp add: hs_insert_def no_self_unite)

lemma no_self_addInclusion: "no_self h \<Longrightarrow> no_self (addInclusion env job inc h)"
  by (simp add: addInclusion_def Let_def no_self_insert)

lemma no_self_fold_addInclusion:
  "no_self h \<Longrightarrow> no_self (fold (addInclusion env job) xs h)"
  by (induction xs arbitrary: h) (simp_all add: no_self_addInclusion)

lemma no_self_inclusionVisitor:
  "no_self h \<Longrightarrow> no_self (inclusionVisitor env job included_file inclusion_stack h)"
  by (simp add: inclusionVisitor_def no_self_addInclusion no_self_fold_addInclusion)

section \<open>The claim about inclusions\<close>

lemma no_self_value: "no_self h \<Longrightarrow> k \<notin> hs_value h k"
  by (auto simp: no_self_def hs_value_def split: option.splits dest!: map_of_SomeD)

lemma line_values_lines:
  assumes "line_values h"
  shows "lines_of (hs_value h k) = hs_value h k - {[]}"
proof (cases "map_of h k")
  case None
  then show ?thesis by (simp add: hs_value_def lines_of_def)
next
  case (Some s)
  then have "(k, s) \<in> set h" by (rule map_of_SomeD)
  with assms have clean: "\<forall>e\<in>set s. LF \<notin> set e \<and> NUL \<notin> set e"
    by (auto simp: line_values_def)
  have "lines_of (set s) = set s - {[]}"
  proof -
    have "\<forall>e\<in>set s. set (split LF (constData e)) = {e}"
      using clean by (simp add: constData_id split_no_sep)
    then have "(\<Union>e\<in>set s. set (split LF (constData e))) = (\<Union>e\<in>set s. {e})" by simp
    then show ?thesis by (simp add: lines_of_def)
  qed
  then show ?thesis by (simp add: map_of_hs_value[OF Some])
qed

lemma no_self_stored_Write:
  assumes "no_self data" "line_values data" "c_string_keys data"
      and "NUL_free db" "no_self_stored db"
  shows "no_self_stored (Write (sync_loop rd db data []) db)"
  unfolding no_self_stored_def
proof
  fix k
  have "k \<notin> stored_at db k" using assms(5) by (simp add: no_self_stored_def)
  moreover have "k \<notin> lines_of (hs_value data k)"
    using no_self_value[OF assms(1), of k] by (simp add: line_values_lines[OF assms(2)])
  ultimately show "k \<notin> stored_at (Write (sync_loop rd db data []) db) k"
    using sync_effect_within[OF assms(3,4), of rd k] by blast
qed

lemma no_self_stored_constData:
  assumes "NUL_free db" "no_self_stored db"
  shows "input \<notin> stored_at db (constData input)"
proof
  assume a: "input \<in> stored_at db (constData input)"
  then have "plain input" using assms(1) by (rule stored_at_plain[rotated])
  then have "constData input = input" by (simp add: plain_def constData_id)
  with a assms(2) show False by (simp add: no_self_stored_def)
qed

text \<open>
  C6 (no self-include), as amended. An inclusion whose resolved path is the job's input
  is skipped, so the inclusion walk keeps the Include staging map free of a key that is an
  element of its own set. A sync keeps the database free of such a key as long as the
  staged including paths hold no LF and no NUL byte and the staged keys no NUL byte.
\<close>

theorem no_self_include:
  "(resolved env (constData inc) = m_in job \<longrightarrow> addInclusion env job inc h = h)
   \<and> (no_self h \<longrightarrow>
        no_self (inclusionVisitor env job included_file inclusion_stack h)
        \<and> (\<forall>k. k \<notin> hs_value (inclusionVisitor env job included_file inclusion_stack h) k))
   \<and> (no_self data \<and> line_values data \<and> c_string_keys data
        \<and> written_by_sync (disk w name) \<and> no_self_stored (disk w name) \<longrightarrow>
        no_self_stored (disk (snd (syncData env type data w)) name)
        \<and> (\<forall>input. input \<notin> stored_at (disk (snd (syncData env type data w)) name)
                              (constData input)))"
proof (intro conjI impI allI)
  assume "resolved env (constData inc) = m_in job"
  then show "addInclusion env job inc h = h" by (simp add: addInclusion_def)
next
  assume "no_self h"
  then show ns: "no_self (inclusionVisitor env job included_file inclusion_stack h)"
    by (rule no_self_inclusionVisitor)
  fix k
  show "k \<notin> hs_value (inclusionVisitor env job included_file inclusion_stack h) k"
    using ns by (rule no_self_value)
next
  assume a: "no_self data \<and> line_values data \<and> c_string_keys data
        \<and> written_by_sync (disk w name) \<and> no_self_stored (disk w name)"
  then have nf: "NUL_free (disk w name)" by (simp add: written_NUL_free)
  show ns: "no_self_stored (disk (snd (syncData env type data w)) name)"
    using a nf by (auto simp: syncData_disk no_self_stored_Write)
  have nf': "NUL_free (disk (snd (syncData env type data w)) name)"
    using nf by (auto simp: syncData_disk NUL_free_Write)
  fix input
  show "input \<notin> stored_at (disk (snd (syncData env type data w)) name) (constData input)"
    using nf' ns by (rule no_self_stored_constData)
qed

theorem no_self_include_witness:
  "resolved example_env (constData ''/b.c'') = m_in (new_job Normal 0 ''/db'' ''/b.c'' [])
   \<and> inclusionVisitor example_env (new_job Normal 0 ''/db'' ''/b.c'' []) ''/b.c'' [] [] = []
   \<and> inclusionVisitor example_env (new_job Normal 0 ''/db'' ''/b.c'' []) ''/b.h'' [''/b.c''] []
       = [(''/b.h'', [''/b.c''])]
   \<and> no_self [(''/b.h'', [''/b.c''])]
   \<and> line_values [(''/b.h'', [''/b.c''])]
   \<and> c_string_keys [(''/b.h'', [''/b.c''])]
   \<and> written_by_sync (disk fresh_world ''Include'')
   \<and> no_self_stored (disk fresh_world ''Include'')
   \<and> stored_at (disk (snd (syncData example_env Include [(''/b.h'', [''/b.c''])] fresh_world))
        ''Include'') ''/b.h'' = {''/b.c''}
   \<and> no_self_stored
        (disk (snd (syncData example_env Include [(''/b.h'', [''/b.c''])] fresh_world))
           ''Include'')"
proof -
  let ?job = "new_job Normal 0 ''/db'' ''/b.c'' []"
  have a: "resolved example_env (constData ''/b.c'') = m_in ?job"
    by (simp add: example_env_def constData_def new_job_def NUL_def)
  have b: "inclusionVisitor example_env ?job ''/b.c'' [] [] = []"
    by (simp add: inclusionVisitor_def addInclusion_def example_env_def constData_def
        new_job_def NUL_def)
  have c: "inclusionVisitor example_env ?job ''/b.h'' [''/b.c''] [] = [(''/b.h'', [''/b.c''])]"
    by (simp add: inclusionVisitor_def addInclusion_def example_env_def constData_def
        new_job_def hs_insert_def qset_unite_def qset_insert_def NUL_def)
  have d: "no_self [(''/b.h'', [''/b.c''])]" by (simp add: no_self_def)
  have e: "line_values [(''/b.h'', [''/b.c''])]" by (simp add: line_values_def LF_def NUL_def)
  have f: "c_string_keys [(''/b.h'', [''/b.c''])]" by (simp add: c_string_keys_def NUL_def)
  have g: "written_by_sync (disk fresh_world ''Include'')" by (rule fresh_written)
  have h: "no_self_stored (disk fresh_world ''Include'')"
    by (simp add: no_self_stored_def fresh_world_def stored_at_def Get_def stored_set_def
        toSet_def qset_insert_def qset_remove_def)
  have i: "stored_at (disk (snd (syncData example_env Include [(''/b.h'', [''/b.c''])] fresh_world))
        ''Include'') ''/b.h'' = {''/b.c''}"
    by (simp add: example_simps)
  from no_self_include[of example_env "''/b.c''" ?job "[]" "''/b.c''" "[]"
      "[(''/b.h'', [''/b.c''])]" fresh_world "''Include''" Include] d e f g h
  have "no_self_stored
        (disk (snd (syncData example_env Include [(''/b.h'', [''/b.c''])] fresh_world))
           ''Include'')"
    by blast
  with a b c d e f g h i show ?thesis by blast
qed

text \<open>
  The claim as stated fails in the database. The job for \<open>/b.c\<close> skips itself; a second
  job whose input path holds an LF byte, \<open>/a<LF>/b.c\<close>, includes \<open>/b.c\<close>. The staging map
  has no key among its own values, but the including path is stored as the two lines
  \<open>/a\<close> and \<open>/b.c\<close>, under the key \<open>/b.c\<close>.
\<close>

theorem no_self_include_counterexample:
  "no_self (addInclusion example_env (new_job Normal 1 ''/db'' (''/a'' @ [LF] @ ''/b.c'') [])
              ''/b.c''
              (addInclusion example_env (new_job Normal 0 ''/db'' ''/b.c'' []) ''/b.c'' []))
   \<and> ''/b.c'' \<in> stored_at
        (disk (snd (syncData example_env Include
           (addInclusion example_env (new_job Normal 1 ''/db'' (''/a'' @ [LF] @ ''/b.c'') [])
              ''/b.c''
              (addInclusion example_env (new_job Normal 0 ''/db'' ''/b.c'' []) ''/b.c'' []))
           fresh_world)) ''Include'')
        ''/b.c''"
  by (simp add: addInclusion_def new_job_def hs_insert_def no_self_def example_simps)

section \<open>The claim about definitions and references\<close>

lemma addNamePermutations_maps:
  "m_defs (addNamePermutations cursor cusr job) = m_defs job"
  "m_refs (addNamePermutations cursor cusr job) = m_refs job"
  by (simp_all add: addNamePermutations_def)

text \<open>What the visitor does to the definition and reference maps of the job.\<close>

lemma indexVisitor_maps:
  "(m_defs (indexVisitor env cursor job) = m_defs job
      \<and> m_refs (indexVisitor env cursor job) = m_refs job)
   \<or> (\<exists>cusr qloc. NUL \<notin> set cusr \<and> \<not> no_usr cusr
         \<and> m_refs (indexVisitor env cursor job) = hs_insert cusr qloc (m_refs job)
         \<and> (m_defs (indexVisitor env cursor job) = m_defs job
            \<or> m_defs (indexVisitor env cursor job) = hs_insert cusr qloc (m_defs job)))"
proof (cases "is_access_specifier cursor
    \<or> (no_usr (constData (usr cursor)) \<and> no_usr (constData (referenced_usr cursor)))")
  case True
  then show ?thesis by (auto simp: indexVisitor_def)
next
  case False
  let ?cusr = "if no_usr (constData (usr cursor)) then constData (referenced_usr cursor)
               else constData (usr cursor)"
  have cu: "NUL \<notin> set ?cusr \<and> \<not> no_usr ?cusr" using False by auto
  show ?thesis
  proof (cases "file_name cursor")
    case None
    with False show ?thesis by (simp add: indexVisitor_def Let_def)
  next
    case (Some f)
    show ?thesis
    proof (cases "constData f = []")
      case True
      with False Some show ?thesis by (simp add: indexVisitor_def Let_def)
    next
      case nonempty: False
      let ?qloc = "resolved env (constData f) @ '':'' @ number (line cursor)
                     @ '':'' @ number (column cursor)"
      have "m_refs (indexVisitor env cursor job) = hs_insert ?cusr ?qloc (m_refs job)"
        using False Some nonempty
        by (simp add: indexVisitor_def Let_def addNamePermutations_maps)
      moreover have "m_defs (indexVisitor env cursor job) = m_defs job
            \<or> m_defs (indexVisitor env cursor job) = hs_insert ?cusr ?qloc (m_defs job)"
        using False Some nonempty
        by (simp add: indexVisitor_def Let_def addNamePermutations_maps)
      ultimately show ?thesis using cu by blast
    qed
  qed
qed




lemma usr_keyed_indexVisitor:
  assumes "usr_keyed job"
  shows "usr_keyed (indexVisitor env cursor job)"
  using indexVisitor_maps[of env cursor job] assms
  by (auto simp: usr_keyed_def c_string_keys_insert)

lemma usr_keyed_walk:
  "usr_keyed job \<Longrightarrow> usr_keyed (fold (indexVisitor env) cursors job)"
  by (induction cursors arbitrary: job) (simp_all add: usr_keyed_indexVisitor)






lemma c_string_keys_Nil [simp]: "c_string_keys []"
  by (simp add: c_string_keys_def)


lemma addFilenameSymbol_maps:
  "addFilenameSymbol f job = Some job2 \<Longrightarrow> m_defs job2 = m_defs job \<and> m_refs job2 = m_refs job"
  by (auto simp: addFilenameSymbol_def split: option.splits if_splits)

lemma disk_qDebug [simp]: "disk (qDebug msg w) = disk w"
  by (simp add: qDebug_def)

lemma disk_emit [simp]: "disk (emit sig w) = disk w"
  by (simp add: emit_def)

lemma disk_diagnostics [simp]:
  "disk (fold (\<lambda>(severity, msg) v. if 2 \<le> severity then qDebug (ClangWarning msg) v else v) ds w)
     = disk w"
  by (induction ds arbitrary: w) (auto split: prod.splits)

subsection \<open>What a sync does to what is stored or staged\<close>



lemma sync_one_eq:
  "sync_one env type impl w =
     (set_staged type (fst (syncData env type (staged type impl) w)) impl,
      snd (syncData env type (staged type impl) w))"
  by (simp add: sync_one_def split_beta)

lemma sync_all_sync_one:
  "sync_all env impl w =
     (let r1 = sync_one env Include impl w;
          r2 = sync_one env Definition (fst r1) (snd r1);
          r3 = sync_one env Reference (fst r2) (snd r2)
      in sync_one env Symbol (fst r3) (snd r3))"
  by (simp add: sync_all_eq sync_one_eq staged_def set_staged_def Let_def)

subsection \<open>The steps of the threads\<close>

lemma held_Nil [simp]: "held m [] u = {}"
  by (simp add: held_def)

lemma held_Cons [simp]: "held m (job # js) u = hs_value (m job) u \<union> held m js u"
  by (simp add: held_def)

lemma held_append [simp]: "held m (js @ js') u = held m js u \<union> held m js' u"
  by (auto simp: held_def)






lemma fold_defs_eq:
  "fold_defs job impl
     = (job\<lparr>m_defs := []\<rparr>, impl\<lparr>defs := fst (uniteSets (defs impl) (m_defs job))\<rparr>)"
  by (simp add: fold_defs_def uniteSets_def)

lemma fold_refs_eq:
  "fold_refs job impl
     = (job\<lparr>m_refs := []\<rparr>, impl\<lparr>refs := fst (uniteSets (refs impl) (m_refs job))\<rparr>)"
  by (simp add: fold_refs_def uniteSets_def)

lemma fold_syms_eq:
  "fold_syms job impl
     = (job\<lparr>m_syms := []\<rparr>, impl\<lparr>syms := fst (uniteSets (syms impl) (m_syms job))\<rparr>)"
  by (simp add: fold_syms_def uniteSets_def)










subsection \<open>The functions of the model as steps\<close>



lemma inclusions_flat:
  "fold (\<lambda>(included_file, stack) h. inclusionVisitor env job included_file stack h) inclusions h
     = fold (addInclusion env job) (concat (map (\<lambda>(f, stack). f # stack) inclusions)) h"
  by (induction inclusions arbitrary: h) (auto simp: inclusionVisitor_def)




lemma reference_failure_other:
  "type \<noteq> Reference \<Longrightarrow> \<not> reference_failure env type impl"
  by (simp add: reference_failure_def)

lemma sync_one_refs:
  "type \<noteq> Reference \<Longrightarrow> refs (fst (sync_one env type impl w)) = refs impl"
  by (cases type) (simp_all add: sync_one_eq set_staged_def)

lemma sync_all_steps:
  assumes "databaseName env' = databaseName env"
      and "\<not> reference_failure env' Reference impl"
  shows "(step env)\<^sup>*\<^sup>* (impl, w, js) (fst (sync_all env' impl w), snd (sync_all env' impl w), js)"
proof -
  let ?r1 = "sync_one env' Include impl w"
  let ?r2 = "sync_one env' Definition (fst ?r1) (snd ?r1)"
  let ?r3 = "sync_one env' Reference (fst ?r2) (snd ?r2)"
  let ?r4 = "sync_one env' Symbol (fst ?r3) (snd ?r3)"
  have ok: "\<not> reference_failure env' Reference (fst ?r2)"
    using assms(2) by (simp add: reference_failure_def sync_one_refs)
  have "(step env)\<^sup>*\<^sup>* (impl, w, js) (fst ?r1, snd ?r1, js)"
    by (rule r_into_rtranclp, rule step.synced[OF assms(1)])
       (simp add: reference_failure_other)
  also have "step env (fst ?r1, snd ?r1, js) (fst ?r2, snd ?r2, js)"
    by (rule step.synced[OF assms(1)]) (simp add: reference_failure_other)
  also have "step env (fst ?r2, snd ?r2, js) (fst ?r3, snd ?r3, js)"
    by (rule step.synced[OF assms(1) ok])
  also have "step env (fst ?r3, snd ?r3, js) (fst ?r4, snd ?r4, js)"
    by (rule step.synced[OF assms(1)]) (simp add: reference_failure_other)
  finally show ?thesis by (simp add: sync_all_sync_one Let_def)
qed

lemma step_coordinator:
  assumes "disk w' = disk w" and "incs impl' = incs impl" and "defs impl' = defs impl"
      and "refs impl' = refs impl" and "syms impl' = syms impl" and "path impl' = path impl"
  shows "step env (impl, w, js) (impl', w', js)"
proof -
  have "step env (impl, w, js)
          (impl\<lparr>jobCounter := jobCounter impl', indexing := indexing impl',
                lastJobId := lastJobId impl', jobs := jobs impl'\<rparr>,
           w\<lparr>qdebug := qdebug w', pool := pool w', emitted := emitted w'\<rparr>, js)"
    by (rule step.coordinated)
  moreover have "w\<lparr>qdebug := qdebug w', pool := pool w', emitted := emitted w'\<rparr> = w'"
    using assms(1) by simp
  moreover have "impl\<lparr>jobCounter := jobCounter impl', indexing := indexing impl',
                lastJobId := lastJobId impl', jobs := jobs impl'\<rparr> = impl'"
    using assms(2-6) by simp
  ultimately show ?thesis by simp
qed

lemma jobDone_steps:
  assumes "jobDone env' ident filename impl w = Some (impl', w')"
      and "databaseName env' = databaseName env"
      and "\<not> reference_failure env' Reference impl"
  shows "(step env)\<^sup>*\<^sup>* (impl, w, js) (impl', w', js)"
proof -
  let ?impl1 = "impl\<lparr>jobs := AList.delete ident (jobs impl),
                      indexing := qset_remove filename (indexing impl),
                      jobCounter := jobCounter impl + 1\<rparr>"
  from assms(1) have small: "\<not> INT_MAX \<le> jobCounter impl"
    by (auto simp: jobDone_def split: if_splits)
  show ?thesis
  proof (cases "jobs ?impl1 = [] \<or> jobCounter ?impl1 = SYNCINTERVAL")
    case False
    with assms(1) small have "impl' = ?impl1" "w' = emit (IndexingDone ident) w"
      by (auto simp: jobDone_def Let_def)
    then have "step env (impl, w, js) (impl', w', js)"
      by (intro step_coordinator) simp_all
    then show ?thesis by blast
  next
    case True
    let ?r = "sync_all env' ?impl1 (qDebug Syncing w)"
    from assms(1) small True have res: "impl' = (fst ?r)\<lparr>jobCounter := 0\<rparr>"
        "w' = emit (IndexingDone ident) (qDebug Synced (snd ?r))"
      by (auto simp: jobDone_def Let_def split_beta)
    have ok: "\<not> reference_failure env' Reference ?impl1"
      using assms(3) by (simp add: reference_failure_def)
    have "step env (impl, w, js) (?impl1, qDebug Syncing w, js)"
      by (intro step_coordinator) simp_all
    also have "(step env)\<^sup>*\<^sup>* (?impl1, qDebug Syncing w, js) (fst ?r, snd ?r, js)"
      using assms(2) ok by (rule sync_all_steps)
    also have "step env (fst ?r, snd ?r, js) (impl', w', js)"
      by (intro step_coordinator) (simp_all add: res)
    finally show ?thesis .
  qed
qed

lemma index_steps:
  assumes "index input arguments mode impl w = Some (ident, impl', w')"
  shows "(step env)\<^sup>*\<^sup>* (impl, w, js) (impl', w', js)
         \<or> (step env)\<^sup>*\<^sup>* (impl, w, js)
              (impl', w', js @ [new_job mode ident (path impl) input arguments])"
proof (cases "input \<in> set (indexing impl)")
  case True
  with assms show ?thesis by (simp add: index_def)
next
  case False
  with assms obtain n where
    i': "impl' = impl\<lparr>lastJobId := n, indexing := qset_insert input (indexing impl),
                jobs := AList.update ident (new_job mode ident (path impl) input arguments)
                          (jobs impl)\<rparr>"
    and w': "w' = w\<lparr>pool := pool w @ [new_job mode ident (path impl) input arguments]\<rparr>"
    by (auto simp: index_def Let_def split: option.splits)
  have "(step env)\<^sup>*\<^sup>* (impl, w, js) (impl', w', js)"
    by (intro r_into_rtranclp step_coordinator) (simp_all add: i' w')
  also have "step env (impl', w', js)
               (impl', w', js @ [new_job mode ident (path impl) input arguments])"
    by (rule step.created)
  finally show ?thesis by blast
qed

subsection \<open>The jobs of the concrete setting\<close>

lemma stored_at_fresh [simp]: "stored_at (disk fresh_world name) k = {}"
  by (simp add: stored_at_def set_stored_set Get_def fresh_world_def)












section \<open>The claim about the frame of a sync\<close>

text \<open>
  Where the keys of the staging maps come from. The keys of the definition and reference
  maps are USRs read as C strings (lines 222 to 231); the keys of the symbol map are put
  together from display names read as C strings (lines 180 to 208) or are the end of the
  unit's filename (line 301); the keys of the inclusion map are resolved paths (line
  140). So no key holds a NUL byte, as long as \<open>Path::resolved\<close> returns a path without
  one and the filename of the unit has none.
\<close>

lemma NUL_free_keys_Nil [simp]: "NUL_free_keys []"
  by (simp add: NUL_free_keys_def)

lemma NUL_free_keys_unite:
  "NUL_free_keys (hs_unite k s h) = (NUL \<notin> set k \<and> NUL_free_keys h)"
  by (simp add: NUL_free_keys_def hs_unite_keys)

lemma NUL_free_keys_insert:
  "NUL_free_keys (hs_insert k v h) = (NUL \<notin> set k \<and> NUL_free_keys h)"
  by (simp add: hs_insert_def NUL_free_keys_unite)

lemma NUL_not_colon [simp]: "NUL \<noteq> CHR '':''"
  by (simp add: NUL_def)

lemma NUL_takeWhile: "NUL \<notin> set q \<Longrightarrow> NUL \<notin> set (takeWhile P q)"
  by (auto dest: set_takeWhileD)

lemma name_loop_keys:
  "NUL \<notin> set qparam \<Longrightarrow> NUL \<notin> set qnoparam \<Longrightarrow> NUL_free_keys h \<Longrightarrow>
     NUL_free_keys (name_loop qusr names qparam qnoparam h)"
proof (induction qusr names qparam qnoparam h rule: name_loop.induct)
  case (1 qusr qparam qnoparam h)
  then show ?case by simp
next
  case (2 qusr parents qparam qnoparam h)
  then show ?case by simp
next
  case (3 qusr displayName parents qparam qnoparam h)
  let ?qname = "constData displayName"
  show ?case
  proof (cases "?qname = []")
    case True
    with 3 show ?thesis by simp
  next
    case False
    let ?qparam1 = "if qparam = [] then ?qname @ qparam else (?qname @ ''::'') @ qparam"
    let ?qnoparam1 = "if qparam = []
                   then (let q = ?qname @ qnoparam
                         in if CHR ''('' \<in> set q then takeWhile (\<lambda>c. c \<noteq> CHR ''('') q else q)
                   else (?qname @ ''::'') @ qnoparam"
    let ?h1 = "hs_insert ?qparam1 qusr h"
    let ?h2 = "if ?qparam1 \<noteq> ?qnoparam1 then hs_insert ?qnoparam1 qusr ?h1 else ?h1"
    have p: "NUL \<notin> set ?qparam1" using "3.prems"(1) by simp
    have n: "NUL \<notin> set ?qnoparam1"
      using "3.prems"(2) by (auto simp: Let_def dest: set_takeWhileD)
    have h2: "NUL_free_keys ?h2"
      using p n "3.prems"(3) by (simp add: NUL_free_keys_insert)
    have "NUL_free_keys (name_loop qusr parents ?qparam1 ?qnoparam1 ?h2)"
      using "3.IH"[OF refl False refl refl refl refl p n h2] .
    then show ?thesis using False by (simp add: Let_def)
  qed
qed

lemma indexVisitor_keys:
  assumes "NUL_free_keys (m_defs job)" "NUL_free_keys (m_refs job)" "NUL_free_keys (m_syms job)"
  shows "NUL_free_keys (m_defs (indexVisitor env cursor job))
         \<and> NUL_free_keys (m_refs (indexVisitor env cursor job))
         \<and> NUL_free_keys (m_syms (indexVisitor env cursor job))"
  using assms
  by (auto simp: indexVisitor_def Let_def addNamePermutations_def NUL_free_keys_insert
      name_loop_keys split: option.splits)

lemma walk_keys:
  "NUL_free_keys (m_defs job) \<and> NUL_free_keys (m_refs job) \<and> NUL_free_keys (m_syms job) \<Longrightarrow>
   NUL_free_keys (m_defs (fold (indexVisitor env) cursors job))
   \<and> NUL_free_keys (m_refs (fold (indexVisitor env) cursors job))
   \<and> NUL_free_keys (m_syms (fold (indexVisitor env) cursors job))"
proof (induction cursors arbitrary: job)
  case Nil
  then show ?case by simp
next
  case (Cons c cursors)
  from Cons.prems have "NUL_free_keys (m_defs (indexVisitor env c job))
         \<and> NUL_free_keys (m_refs (indexVisitor env c job))
         \<and> NUL_free_keys (m_syms (indexVisitor env c job))"
    by (intro indexVisitor_keys) simp_all
  from Cons.IH[OF this] show ?case by simp
qed

lemma addFilenameSymbol_keys:
  assumes "addFilenameSymbol f job = Some job'" and "NUL \<notin> set f"
      and "NUL_free_keys (m_syms job)"
  shows "NUL_free_keys (m_syms job')"
  using assms
  by (auto simp: addFilenameSymbol_def mid_def NUL_free_keys_insert
      split: option.splits if_splits dest: in_set_dropD)

lemma addInclusion_keys:
  assumes "\<forall>p. NUL \<notin> set (resolved env p)" and "NUL_free_keys h"
  shows "NUL_free_keys (addInclusion env job inc h)"
  using assms by (simp add: addInclusion_def Let_def NUL_free_keys_insert)

lemma inclusions_keys:
  assumes "\<forall>p. NUL \<notin> set (resolved env p)"
  shows "NUL_free_keys h \<Longrightarrow> NUL_free_keys (fold (addInclusion env job) xs h)"
  by (induction xs arbitrary: h) (simp_all add: addInclusion_keys[OF assms])

lemma uniteSets_keys:
  "NUL_free_keys dst \<Longrightarrow> NUL_free_keys src \<Longrightarrow> NUL_free_keys (fst (uniteSets dst src))"
  unfolding uniteSets_def fst_conv
proof (induction src arbitrary: dst)
  case Nil
  then show ?case by simp
next
  case (Cons e src)
  obtain k s where e: "e = (k, s)" by (cases e)
  from Cons.prems(2) have k: "NUL \<notin> set k" and src: "NUL_free_keys src"
    by (simp_all add: e NUL_free_keys_def)
  from k Cons.prems(1) have "NUL_free_keys (hs_unite k s dst)"
    by (simp add: NUL_free_keys_unite)
  with src Cons.IH show ?case by (simp add: e)
qed

lemma run_keys:
  assumes res: "run env unit job impl w = Some (job', impl', w')"
      and paths: "\<forall>p. NUL \<notin> set (resolved env p)"
      and name: "\<forall>u. unit = Some u \<longrightarrow> NUL \<notin> set (unit_filename u)"
      and job: "m_defs job = []" "m_refs job = []" "m_syms job = []"
      and impl: "NUL_free_keys (incs impl)" "NUL_free_keys (defs impl)"
                "NUL_free_keys (refs impl)" "NUL_free_keys (syms impl)"
  shows "NUL_free_keys (incs impl') \<and> NUL_free_keys (defs impl')
         \<and> NUL_free_keys (refs impl') \<and> NUL_free_keys (syms impl')"
proof (cases unit)
  case None
  with res impl show ?thesis by (auto simp: run_def)
next
  case (Some u)
  show ?thesis
  proof (cases "unit_origin u = Source")
    case False
    with res Some impl show ?thesis by (auto simp: run_def Let_def)
  next
    case True
    let ?job1 = "fold (indexVisitor env) (unit_cursors u) job"
    from res Some True obtain job2 where
      j2: "addFilenameSymbol (unit_filename u) ?job1 = Some job2"
      by (auto simp: run_def Let_def split: option.splits)
    have k1: "NUL_free_keys (m_defs ?job1) \<and> NUL_free_keys (m_refs ?job1)
              \<and> NUL_free_keys (m_syms ?job1)"
      by (rule walk_keys) (simp add: job)
    have k2: "NUL_free_keys (m_defs job2)" "NUL_free_keys (m_refs job2)"
      "NUL_free_keys (m_syms job2)"
      using addFilenameSymbol_maps[OF j2] addFilenameSymbol_keys[OF j2] k1 name Some
      by simp_all
    have i1: "NUL_free_keys (incs (run_inclusions env job (unit_inclusions u) impl))"
      unfolding run_inclusions_def inclusions_flat
      using inclusions_keys[OF paths impl(1)] by simp
    from res Some True j2 have
      "incs impl' = incs (run_inclusions env job (unit_inclusions u) impl)"
      "defs impl' = fst (uniteSets (defs impl) (m_defs job2))"
      "refs impl' = fst (uniteSets (refs impl) (m_refs job2))"
      "syms impl' = fst (uniteSets (syms impl) (m_syms job2))"
      by (auto simp: run_def Let_def fold_defs_eq fold_refs_eq fold_syms_eq
          run_inclusions_def)
    then show ?thesis using i1 k2 impl by (simp add: uniteSets_keys)
  qed
qed

text \<open>
  C10 (frame). With staged keys that hold no NUL byte, as the keys that \<open>run\<close> stages
  are, and whatever the open, the reads and the commit do: the value at every database
  key that is not a key of the staging map, and every other database, is byte for byte
  what it was.
\<close>

theorem syncData_frame:
  assumes "NUL_free_keys data"
      and "key \<notin> fst ` set data \<or> name \<noteq> databaseName env type"
  shows "disk (snd (syncData env type data w)) name key = disk w name key"
proof -
  have "constData ` fst ` set data = fst ` set data"
    using assms(1) by (force simp: NUL_free_keys_def constData_id)
  with assms(2) show ?thesis by (simp add: syncData_writes_c_strings)
qed

theorem syncData_frame_witness:
  "NUL_free_keys [(''k'', [''a''])]
   \<and> ''j'' \<notin> fst ` set [(''k'', [''a''])]
   \<and> disk (snd (syncData example_env Include [(''k'', [''a''])] fresh_world)) ''Include'' ''j''
       = disk fresh_world ''Include'' ''j''
   \<and> disk (snd (syncData example_env Include [(''k'', [''a''])] fresh_world)) ''Include'' ''k''
       = Some (''a'' @ [LF])"
proof -
  have h1: "NUL_free_keys [(''k'', [''a''])]" by (simp add: NUL_free_keys_def NUL_def)
  have h2: "''j'' \<notin> fst ` set [(''k'', [''a''])]" by simp
  have "disk (snd (syncData example_env Include [(''k'', [''a''])] fresh_world)) ''Include'' ''k''
       = Some (''a'' @ [LF])"
    by (simp add: example_simps)
  with h1 h2 syncData_frame[of "[(''k'', [''a''])]" "''j''" "''Include''" example_env Include
      fresh_world]
  show ?thesis by blast
qed

section \<open>What the filename loop returns when it returns\<close>

lemma backslashes_before_0 [simp]: "backslashes_before f 0 = 0"
  by (simp add: backslashes_before_def)

lemma backslashes_before_Suc:
  "i < length f \<Longrightarrow>
     backslashes_before f (Suc i)
       = (if f ! i = CHR 0x5C then Suc (backslashes_before f i) else 0)"
  by (simp add: backslashes_before_def take_Suc_conv_app_nth)

lemma backslashes_before_le: "backslashes_before f i \<le> i"
proof -
  have "backslashes_before f i \<le> length (rev (take i f))"
    unfolding backslashes_before_def by (rule length_takeWhile_le)
  then show ?thesis by simp
qed

lemma backslashes_run:
  "i \<le> length f \<Longrightarrow> i - backslashes_before f i \<le> j \<Longrightarrow> j < i \<Longrightarrow> f ! j = CHR 0x5C"
proof (induction i)
  case 0
  then show ?case by simp
next
  case (Suc i)
  then have il: "i < length f" by simp
  show ?case
  proof (cases "f ! i = CHR 0x5C")
    case True
    show ?thesis
    proof (cases "j = i")
      case True
      with \<open>f ! i = CHR 0x5C\<close> show ?thesis by simp
    next
      case False
      with Suc.prems True il have "i - backslashes_before f i \<le> j" "j < i"
        by (simp_all add: backslashes_before_Suc)
      with Suc.IH il show ?thesis by simp
    qed
  next
    case False
    with Suc.prems il show ?thesis by (simp add: backslashes_before_Suc)
  qed
qed

lemma skip_backslashes_eq:
  "i \<le> length f \<Longrightarrow>
     skip_backslashes f (int i) b
       = (int (i - backslashes_before f i), b + int (backslashes_before f i))"
proof (induction i arbitrary: b)
  case 0
  show ?case by (simp add: skip_backslashes.simps)
next
  case (Suc i)
  then have il: "i < length f" by simp
  show ?case
  proof (cases "f ! i = CHR 0x5C")
    case True
    have "skip_backslashes f (int (Suc i)) b = skip_backslashes f (int i) (b + 1)"
      using True il by (subst skip_backslashes.simps) (simp add: byte_at_def)
    also have "\<dots> = (int (i - backslashes_before f i), b + 1 + int (backslashes_before f i))"
      using Suc.IH[of "b + 1"] il by simp
    finally show ?thesis using True il backslashes_before_le[of f i]
      by (simp add: backslashes_before_Suc)
  next
    case False
    then show ?thesis using il
      by (subst skip_backslashes.simps) (simp add: byte_at_def backslashes_before_Suc)
  qed
qed

lemma skip_backslashes_neg: "i < 0 \<Longrightarrow> skip_backslashes f i b = (i, b)"
  by (subst skip_backslashes.simps) simp

lemma search_back_cases:
  assumes "n < length f"
  shows "(search_back f c n = - 1 \<and> (\<forall>j\<le>n. f ! j \<noteq> c))
       \<or> (\<exists>r\<le>n. search_back f c n = int r \<and> f ! r = c \<and> (\<forall>j. r < j \<and> j \<le> n \<longrightarrow> f ! j \<noteq> c))"
  using assms
proof (induction n)
  case 0
  then show ?case by (auto simp: byte_at_def)
next
  case (Suc n)
  show ?case
  proof (cases "f ! Suc n = c")
    case True
    with Suc.prems show ?thesis by (auto simp: byte_at_def)
  next
    case False
    from Suc have IH: "(search_back f c n = - 1 \<and> (\<forall>j\<le>n. f ! j \<noteq> c))
       \<or> (\<exists>r\<le>n. search_back f c n = int r \<and> f ! r = c \<and> (\<forall>j. r < j \<and> j \<le> n \<longrightarrow> f ! j \<noteq> c))"
      by simp
    have sb: "search_back f c (Suc n) = search_back f c n"
      using False Suc.prems by (simp add: byte_at_def)
    from IH show ?thesis
    proof
      assume "search_back f c n = - 1 \<and> (\<forall>j\<le>n. f ! j \<noteq> c)"
      then show ?thesis using False sb by (auto simp: le_Suc_eq)
    next
      assume "\<exists>r\<le>n. search_back f c n = int r \<and> f ! r = c \<and> (\<forall>j. r < j \<and> j \<le> n \<longrightarrow> f ! j \<noteq> c)"
      then obtain r where "r \<le> n" "search_back f c n = int r" "f ! r = c"
        "\<forall>j. r < j \<and> j \<le> n \<longrightarrow> f ! j \<noteq> c" by blast
      then show ?thesis using False sb
        by (intro disjI2 exI[of _ r]) (auto simp: le_Suc_eq)
    qed
  qed
qed

lemma unescaped_slash_bound: "unescaped_slash f j \<Longrightarrow> j < length f"
  by (simp add: unescaped_slash_def)

lemma int_mod2: "(int b mod 2 \<noteq> 0) = odd b"
  using even_iff_mod_2_eq_zero[of "int b"] by simp

lemma int_diff_one: "(int m - 1 = 0) = (m = 1)"
  by auto

lemma basename_step:
  assumes IH: "\<And>i r. bl f i = Some r \<Longrightarrow> loop_entry f i \<Longrightarrow> loop_result f r"
      and body: "(let found = skip_backslashes f (lastIndexOf f CHR ''/'' idx) 0;
                idx1 = fst found; backslashes = snd found
            in if backslashes mod 2 \<noteq> 0 \<or> idx1 = 0
               then if idx1 - 1 = 0 then Some (idx1 - 1) else bl f (idx1 - 1)
               else Some (idx1 + backslashes)) = Some r"
      and ent: "loop_entry f idx"
  shows "loop_result f r"
proof (cases "f = []")
  case True
  with ent have "idx = - 1" by (auto simp: loop_entry_def)
  with True body have "r = - 1"
    by (simp add: lastIndexOf_def skip_backslashes_neg Let_def)
  moreover have "\<not> (\<exists>i. unescaped_slash f i)" using True by (simp add: unescaped_slash_def)
  ultimately show ?thesis by (simp add: loop_result_def)
next
  case False
  define n where "n = (if idx = - 1 then length f - 1 else nat idx)"
  have nl: "n < length f" using False ent by (auto simp: n_def loop_entry_def)
  have li: "lastIndexOf f CHR ''/'' idx = search_back f CHR ''/'' n"
  proof (cases "idx = - 1")
    case True
    have "nat (int (length f) - 1) = length f - 1" by arith
    moreover have "0 \<le> int (length f) - 1" using False by (cases f) simp_all
    ultimately show ?thesis using True by (simp add: lastIndexOf_def n_def Let_def)
  next
    case False
    with ent have "1 \<le> idx" "idx < int (length f)" by (auto simp: loop_entry_def)
    then show ?thesis using False by (simp add: lastIndexOf_def n_def Let_def)
  qed
  have above: "\<not> unescaped_slash f j" if "n < j" for j
  proof (cases "idx = - 1")
    case True
    with that False have "length f \<le> j" by (simp add: n_def)
    then show ?thesis by (simp add: unescaped_slash_def)
  next
    case False
    with ent that show ?thesis by (auto simp: loop_entry_def n_def)
  qed
  from search_back_cases[OF nl, of "CHR ''/''"] show ?thesis
  proof
    assume none: "search_back f CHR ''/'' n = - 1 \<and> (\<forall>j\<le>n. f ! j \<noteq> CHR ''/'')"
    with body li have "r = - 1" by (simp add: skip_backslashes_neg Let_def)
    moreover have "\<not> unescaped_slash f j" for j
      using none above[of j] by (cases "j \<le> n") (auto simp: unescaped_slash_def)
    ultimately show ?thesis by (simp add: loop_result_def)
  next
    assume "\<exists>q\<le>n. search_back f CHR ''/'' n = int q \<and> f ! q = CHR ''/''
              \<and> (\<forall>j. q < j \<and> j \<le> n \<longrightarrow> f ! j \<noteq> CHR ''/'')"
    then obtain q where q: "q \<le> n" "search_back f CHR ''/'' n = int q" "f ! q = CHR ''/''"
        "\<forall>j. q < j \<and> j \<le> n \<longrightarrow> f ! j \<noteq> CHR ''/''" by blast
    define b where "b = backslashes_before f q"
    have ql: "q < length f" using q(1) nl by simp
    have bq: "b \<le> q" unfolding b_def by (rule backslashes_before_le)
    have found: "skip_backslashes f (lastIndexOf f CHR ''/'' idx) 0 = (int (q - b), int b)"
      using ql by (simp add: li q(2) skip_backslashes_eq b_def)
    have beyond: "\<not> unescaped_slash f j" if "q < j" for j
      using q(4) above[of j] that by (cases "j \<le> n") (auto simp: unescaped_slash_def)
    have run: "f ! j \<noteq> CHR ''/''" if "q - b \<le> j" "j < q" for j
      using backslashes_run[of q f j] that ql by (simp add: b_def)
    from body have body':
      "(if odd b \<or> q - b = 0
        then if q - b = 1 then Some (int (q - b) - 1) else bl f (int (q - b) - 1)
        else Some (int (q - b) + int b)) = Some r"
      by (simp only: found Let_def fst_conv snd_conv int_mod2 int_diff_one of_nat_eq_0_iff)
    show ?thesis
    proof (cases "odd b \<or> q - b = 0")
      case False
      then have "even b" "q - b \<noteq> 0" by simp_all
      from body' False have "r = int (q - b) + int b"
        by (simp only: if_False option.inject)
      then have r: "r = int q" using bq by simp
      have "unescaped_slash f q" using ql q(3) \<open>even b\<close> by (simp add: unescaped_slash_def b_def)
      then show ?thesis using r beyond by (auto simp: loop_result_def)
    next
      case True
      have escaped: "\<not> unescaped_slash f q" if "q - b \<noteq> 0"
        using True that by (simp add: unescaped_slash_def b_def)
      show ?thesis
      proof (cases "q - b = 1")
        case one: True
        from body' True one have r: "r = 0" by (simp only: if_True option.inject) simp
        have only0: "\<not> unescaped_slash f j" if "0 < j" for j
        proof (cases "j < q")
          case True
          with that one run[of j] show ?thesis by (simp add: unescaped_slash_def)
        next
          case False
          with beyond[of j] escaped one show ?thesis by (cases "j = q") auto
        qed
        show ?thesis
        proof (cases "\<exists>i. unescaped_slash f i")
          case True
          then obtain i where i: "unescaped_slash f i" by blast
          with only0[of i] have "i = 0" by auto
          with i r only0 show ?thesis by (auto simp: loop_result_def)
        next
          case False
          with r show ?thesis by (simp add: loop_result_def)
        qed
      next
        case notone: False
        from body' True notone have rec: "bl f (int (q - b) - 1) = Some r"
          by (simp only: if_True if_False)
        have "loop_entry f (int (q - b) - 1)"
        proof (cases "q - b = 0")
          case True
          then show ?thesis by (simp add: loop_entry_def)
        next
          case False
          with notone have ge: "2 \<le> q - b" by simp
          have "\<not> unescaped_slash f j" if "int (q - b) - 1 < int j" for j
          proof -
            from that have lo: "q - b \<le> j" by simp
            show ?thesis
            proof (cases "j < q")
              case True
              with run[OF lo] show ?thesis by (simp add: unescaped_slash_def)
            next
              case False
              with beyond[of j] escaped[OF \<open>q - b \<noteq> 0\<close>] show ?thesis by (cases "j = q") auto
            qed
          qed
          then show ?thesis using ge ql by (auto simp: loop_entry_def)
        qed
        with IH[OF rec] show ?thesis .
      qed
    qed
  qed
qed

lemma basename_loop_result:
  assumes "basename_loop f idx = Some r" and "loop_entry f idx"
  shows "loop_result f r"
proof -
  have "loop_entry f idx \<longrightarrow> loop_result f r"
  proof (rule basename_loop.raw_induct[where P = "\<lambda>g i y. loop_entry g i \<longrightarrow> loop_result g y",
        OF _ assms(1)])
    fix bl g i y
    assume IH: "\<And>g i y. bl g i = Some y \<Longrightarrow> loop_entry g i \<longrightarrow> loop_result g y"
      and body: "(let found = skip_backslashes g (lastIndexOf g CHR ''/'' i) 0;
                idx1 = fst found; backslashes = snd found
            in if backslashes mod 2 \<noteq> 0 \<or> idx1 = 0
               then if idx1 - 1 = 0 then Some (idx1 - 1) else bl g (idx1 - 1)
               else Some (idx1 + backslashes)) = Some y"
    show "loop_entry g i \<longrightarrow> loop_result g y"
    proof
      assume ent: "loop_entry g i"
      have step: "\<And>j r. bl g j = Some r \<Longrightarrow> loop_entry g j \<Longrightarrow> loop_result g r"
        using IH by blast
      from step body ent show "loop_result g y"
        by (rule basename_step)
    qed
  qed
  with assms(2) show ?thesis by simp
qed

text \<open>
  The rest of C8 holds wherever the function returns: when the filename has an unescaped
  slash, the mapping inserted is from the bytes after the last unescaped slash to the
  filename.
\<close>

lemma addFilenameSymbol_result:
  assumes "addFilenameSymbol f job = Some job'" and "unescaped_slash f i"
  shows "\<exists>l. unescaped_slash f l \<and> (\<forall>j>l. \<not> unescaped_slash f j)
             \<and> job' = job\<lparr>m_syms := hs_insert (drop (Suc l) f) f (m_syms job)\<rparr>"
proof -
  from assms(1) obtain r where r: "basename_loop f (- 1) = Some r"
    by (auto simp: addFilenameSymbol_def split: option.splits)
  have "loop_entry f (- 1)" by (simp add: loop_entry_def)
  with r have "loop_result f r" by (rule basename_loop_result)
  moreover have "\<exists>i. unescaped_slash f i" using assms(2) by blast
  ultimately have res: "0 \<le> r" "unescaped_slash f (nat r)"
    "\<forall>j>nat r. \<not> unescaped_slash f j"
    by (simp_all add: loop_result_def)
  have "nat (r + 1) = Suc (nat r)" using res(1) by simp
  with assms(1) r res(1) have "job' = job\<lparr>m_syms := hs_insert (drop (Suc (nat r)) f) f (m_syms job)\<rparr>"
    by (auto simp: addFilenameSymbol_def mid_def)
  with res show ?thesis by blast
qed

end
